theory Spec2Isabelle
  imports Main "HOL-Library.Word"
begin

section \<open>The frame lifecycle of HelloSkia (Win32-Ganesh-D3D12.cpp)\<close>

text \<open>
  The program is glue between Win32, Direct3D 12 and Skia. The embedding keeps the
  CPU-side state of \<open>HelloSkiaWindow\<close> that the frame lifecycle reads and writes, and
  records every call into the three collaborators, in program order, in a log. The
  collaborators themselves are opaque: what a fallible native call returns is an input
  (\<open>natives\<close>), one \<open>HRESULT\<close> per call site. The class is declared in
  Win32-Ganesh-D3D12.hpp, which is not among the sources; the constant
  \<open>SwapChainLength\<close> declared there is the parameter \<open>N\<close> of every function that uses it.
\<close>

subsection \<open>Native values\<close>

type_synonym HRESULT = "32 word"

text \<open>\<open>SUCCEEDED(hr)\<close> is \<open>((HRESULT)(hr)) >= 0\<close> on a signed 32-bit value.\<close>

definition SUCCEEDED :: "HRESULT \<Rightarrow> bool" where
  "SUCCEEDED hr = (0 \<le> sint hr)"

text \<open>
  Completion markers are the \<open>UINT64\<close> values that \<open>ID3D12CommandQueue::Signal\<close>,
  \<open>ID3D12Fence::SetEventOnCompletion\<close> and \<open>GrD3DFenceInfo::fValue\<close> take, and the
  counter \<open>mFenceValue\<close> is taken to have that type; \<open>++\<close> on it wraps at \<open>2 ^ 64\<close>.
\<close>

type_synonym marker = "64 word"

record PixelSize =
  mWidth :: "32 word"
  mHeight :: "32 word"

text \<open>
  \<open>FrameContext\<close>, one per ring position. The frame's own \<open>mFenceValue\<close> is named
  \<open>frame_mFenceValue\<close> here, since the window has a member of the same name. The
  command allocator of a slot is created once and never replaced, so the slot's index
  stands for it. A render target is the index of the swap-chain buffer it was obtained
  from; a Skia surface is the size it was wrapped with; \<open>None\<close> is the null pointer.
\<close>

record FrameContext =
  mRenderTarget :: "nat option"
  mRenderTargetView :: "64 word"
  mSkSurface :: "PixelSize option"
  frame_mFenceValue :: marker

text \<open>The calls into the collaborators that the lifecycle makes.\<close>

datatype call =
    SkFlushAndSubmit bool
  | Signal marker
  | SetEventOnCompletion marker
  | WaitForSingleObject
  | ReleaseSurface nat
  | ReleaseRenderTarget nat
  | ResizeBuffers "32 word" "32 word"
  | GetBuffer nat
  | SetName nat
  | CreateRenderTargetView nat "64 word"
  | GetDesc1
  | WrapBackendRenderTarget nat PixelSize
  | AllocatorReset nat
  | CommandListReset nat
  | ResourceBarrier nat
  | ClearRenderTargetView nat
  | OMSetRenderTargets nat
  | SetDescriptorHeaps
  | Close
  | ExecuteCommandLists
  | SkWait marker
  | SetD3DResourceState nat
  | DrawRoundRect nat PixelSize
  | DrawString nat nat
  | SkFlush nat marker
  | SkSubmit bool
  | Present
  | OutputDebugStringA HRESULT

text \<open>
  The members of \<open>HelloSkiaWindow\<close> that the lifecycle uses. \<open>mSwapChain\<close> is the
  buffer size the swap chain reports through \<open>GetDesc1\<close>; \<open>calls\<close> is the log, oldest
  call first. The widths of \<open>mFrameIndex\<close> and \<open>mFrameCounter\<close> are declared in the
  header; the index stays below the ring size and the counter is only printed.
\<close>

record HelloSkiaWindow =
  mExitCode :: "int option"
  mWindowSize :: PixelSize
  mPendingResize :: "PixelSize option"
  mSwapChain :: PixelSize
  mFenceValue :: marker
  mFrames :: "FrameContext list"
  mFrameIndex :: nat
  mFrameCounter :: nat
  calls :: "call list"

text \<open>
  What the collaborators answer during one call of \<open>RenderFrame\<close> (or of the
  constructor, or of the destructor): the \<open>HRESULT\<close> of each fallible call site, the
  start and step of the render-target-view heap, the client area that
  \<open>ResizeBuffers\<close> substitutes for a zero extent, and the contents of an output
  structure that a failed \<open>GetDesc1\<close> leaves unwritten.
\<close>

record natives =
  hrSignalCleanup :: HRESULT
  hrSetEventCleanup :: HRESULT
  hrResizeBuffers :: HRESULT
  hrGetBuffer :: "nat \<Rightarrow> HRESULT"
  hrSetName :: HRESULT
  hrGetDesc1 :: HRESULT
  hrSetEventOnCompletion :: HRESULT
  hrAllocatorReset :: HRESULT
  hrCommandListReset :: HRESULT
  hrClose :: HRESULT
  hrSignal :: HRESULT
  hrPresent :: HRESULT
  rtvStart :: "64 word"
  rtvStep :: "32 word"
  clientArea :: PixelSize
  unwritten :: PixelSize

subsection \<open>Outcomes\<close>

text \<open>
  A member function either returns or leaves by a C++ exception. Each outcome carries
  the window as it is at that point.
\<close>

datatype error = system_error HRESULT | out_of_range | null_surface

datatype outcome = Returned HelloSkiaWindow | Raised error HelloSkiaWindow

fun final :: "outcome \<Rightarrow> HelloSkiaWindow" where
  "final (Returned s) = s"
| "final (Raised e s) = s"

fun andThen :: "outcome \<Rightarrow> (HelloSkiaWindow \<Rightarrow> outcome) \<Rightarrow> outcome" where
  "andThen (Returned s) f = f s"
| "andThen (Raised e s) f = Raised e s"

definition call :: "call \<Rightarrow> HelloSkiaWindow \<Rightarrow> HelloSkiaWindow" where
  "call c s = s\<lparr>calls := calls s @ [c]\<rparr>"

text \<open>
  \<open>CheckHResult\<close> (lines 23-42): nothing on success; otherwise the message goes to
  \<open>OutputDebugStringA\<close> and \<open>std::system_error\<close> is thrown.
\<close>

definition CheckHResult :: "HRESULT \<Rightarrow> HelloSkiaWindow \<Rightarrow> outcome" where
  "CheckHResult ret s =
     (if SUCCEEDED ret then Returned s
      else Raised (system_error ret) (call (OutputDebugStringA ret) s))"

subsection \<open>Render targets\<close>

text \<open>
  The body of the loop of \<open>CreateRenderTargets\<close> (lines 259-290) for buffer \<open>i\<close>.
  \<open>i * rtvStep\<close> is a product of two \<open>UINT\<close>s, added to a pointer-sized handle. The
  results of \<open>SetName\<close> and of \<open>GetDesc1\<close> are not checked there. \<open>mFrames[i]\<close> is
  inside the array, which has as many elements as the swap chain has buffers.
\<close>

definition CreateRenderTarget :: "natives \<Rightarrow> nat \<Rightarrow> HelloSkiaWindow \<Rightarrow> outcome" where
  "CreateRenderTarget nv i s =
     andThen (CheckHResult (hrGetBuffer nv i) (call (GetBuffer i) s)) (\<lambda>s1.
       let view = rtvStart nv + ucast (word_of_nat i * rtvStep nv);
           s2 = call GetDesc1 (call (CreateRenderTargetView i view) (call (SetName i) s1));
           desc = (if SUCCEEDED (hrGetDesc1 nv) then mSwapChain s2 else unwritten nv);
           s3 = call (WrapBackendRenderTarget i desc) s2
       in Returned (s3\<lparr>mFrames := (mFrames s3)
            [i := (mFrames s3 ! i)\<lparr>mRenderTarget := Some i, mRenderTargetView := view,
                                   mSkSurface := Some desc\<rparr>]\<rparr>))"

fun CreateRenderTargets_from :: "natives \<Rightarrow> nat list \<Rightarrow> HelloSkiaWindow \<Rightarrow> outcome" where
  "CreateRenderTargets_from nv [] s = Returned s"
| "CreateRenderTargets_from nv (i # is) s =
     andThen (CreateRenderTarget nv i s) (CreateRenderTargets_from nv is)"

text \<open>\<open>for (UINT i = 0; i < SwapChainLength; ++i)\<close>, the ring size being \<open>N\<close>.\<close>

definition CreateRenderTargets :: "nat \<Rightarrow> natives \<Rightarrow> HelloSkiaWindow \<Rightarrow> outcome" where
  "CreateRenderTargets N nv s = CreateRenderTargets_from nv [0..<N] s"

subsection \<open>Quiescence\<close>

text \<open>
  The loop body of \<open>CleanupFrameContexts\<close> (lines 482-485): dropping a held surface
  or render target releases it; the view and the marker are zeroed.
\<close>

definition release_calls :: "nat \<Rightarrow> FrameContext \<Rightarrow> call list" where
  "release_calls i f =
     (if mSkSurface f = None then [] else [ReleaseSurface i]) @
     (if mRenderTarget f = None then [] else [ReleaseRenderTarget i])"

definition release_frame :: "FrameContext \<Rightarrow> FrameContext" where
  "release_frame f =
     f\<lparr>mSkSurface := None, mRenderTarget := None, mRenderTargetView := 0,
       frame_mFenceValue := 0\<rparr>"

definition release_all :: "HelloSkiaWindow \<Rightarrow> HelloSkiaWindow" where
  "release_all s =
     s\<lparr>calls := calls s @ concat (map (\<lambda>(i, f). release_calls i f) (enumerate 0 (mFrames s))),
       mFrames := map release_frame (mFrames s)\<rparr>"

text \<open>
  \<open>CleanupFrameContexts\<close> (lines 473-489). The new marker is signalled on the queue
  and its completion registered, both checked, before the wait; the spec takes the
  GPU as not hung, so this wait returns.
\<close>

definition CleanupFrameContexts :: "natives \<Rightarrow> HelloSkiaWindow \<Rightarrow> outcome" where
  "CleanupFrameContexts nv s =
     (let s1 = call (SkFlushAndSubmit True) s;
          fenceValue = mFenceValue s1 + 1;
          s2 = s1\<lparr>mFenceValue := fenceValue\<rparr>
      in andThen (CheckHResult (hrSignalCleanup nv) (call (Signal fenceValue) s2)) (\<lambda>s3.
         andThen (CheckHResult (hrSetEventCleanup nv) (call (SetEventOnCompletion fenceValue) s3)) (\<lambda>s4.
           Returned ((release_all (call WaitForSingleObject s4))\<lparr>mFrameIndex := 0\<rparr>))))"

subsection \<open>One frame\<close>

text \<open>\<open>RenderNonSkiaContent\<close> (lines 298-325) on slot \<open>i\<close>.\<close>

definition RenderNonSkiaContent :: "natives \<Rightarrow> nat \<Rightarrow> HelloSkiaWindow \<Rightarrow> outcome" where
  "RenderNonSkiaContent nv i s =
     (let s1 = call SetDescriptorHeaps (call (OMSetRenderTargets i)
                 (call (ClearRenderTargetView i) (call (ResourceBarrier i) s)))
      in andThen (CheckHResult (hrClose nv) (call Close s1)) (\<lambda>s2.
           CheckHResult (hrSignal nv)
             (call (Signal (frame_mFenceValue (mFrames s2 ! i))) (call ExecuteCommandLists s2))))"

text \<open>\<open>RenderSkiaContent(SkCanvas*)\<close> (lines 327-348): the two drawing calls.\<close>

definition RenderSkiaContent_canvas :: "nat \<Rightarrow> HelloSkiaWindow \<Rightarrow> HelloSkiaWindow" where
  "RenderSkiaContent_canvas i s =
     call (DrawString i (mFrameCounter s)) (call (DrawRoundRect i (mWindowSize s)) s)"

text \<open>
  \<open>RenderSkiaContent(FrameContext&)\<close> (lines 350-389) on slot \<open>i\<close>. The surface
  pointer is dereferenced without a test.
\<close>

definition RenderSkiaContent :: "nat \<Rightarrow> HelloSkiaWindow \<Rightarrow> outcome" where
  "RenderSkiaContent i s =
     (let s1 = call (SkWait (frame_mFenceValue (mFrames s ! i))) s
      in case mSkSurface (mFrames s1 ! i) of
           None \<Rightarrow> Raised null_surface s1
         | Some surface \<Rightarrow>
             (let s2 = RenderSkiaContent_canvas i (call (SetD3DResourceState i) s1);
                  fValue = mFenceValue s2 + 1;
                  s3 = s2\<lparr>mFenceValue := fValue\<rparr>;
                  s4 = s3\<lparr>mFrames := (mFrames s3)[i := (mFrames s3 ! i)\<lparr>frame_mFenceValue := fValue\<rparr>]\<rparr>
              in Returned (call (SkSubmit False) (call (SkFlush i fValue) s4))))"

text \<open>
  The pending-resize block of \<open>RenderFrame\<close> (lines 392-404). \<open>ResizeBuffers\<close> takes
  the pending extents; where one is zero the swap chain uses the client area.
\<close>

definition resized :: "natives \<Rightarrow> PixelSize \<Rightarrow> PixelSize" where
  "resized nv sz =
     \<lparr>mWidth = (if mWidth sz = 0 then mWidth (clientArea nv) else mWidth sz),
      mHeight = (if mHeight sz = 0 then mHeight (clientArea nv) else mHeight sz)\<rparr>"

definition RenderFrame_resize :: "nat \<Rightarrow> natives \<Rightarrow> HelloSkiaWindow \<Rightarrow> outcome" where
  "RenderFrame_resize N nv s =
     (case mPendingResize s of
        None \<Rightarrow> Returned s
      | Some sz \<Rightarrow>
          andThen (CleanupFrameContexts nv s) (\<lambda>s1.
          andThen (CheckHResult (hrResizeBuffers nv)
                     (call (ResizeBuffers (mWidth sz) (mHeight sz)) s1)) (\<lambda>s2.
          andThen (CreateRenderTargets N nv (s2\<lparr>mSwapChain := resized nv sz\<rparr>)) (\<lambda>s3.
            Returned (s3\<lparr>mWindowSize := sz, mPendingResize := None\<rparr>)))))"

text \<open>
  The wait of \<open>RenderFrame\<close> (lines 411-414) on the slot's stored marker \<open>m\<close>. The
  results of \<open>SetEventOnCompletion\<close> and of \<open>WaitForSingleObject\<close> are not looked
  at there: whatever they are, the program goes on to line 415.
\<close>

definition wait_for_frame :: "marker \<Rightarrow> HelloSkiaWindow \<Rightarrow> HelloSkiaWindow" where
  "wait_for_frame m s =
     (if m \<noteq> 0 then call WaitForSingleObject (call (SetEventOnCompletion m) s) else s)"

text \<open>
  The rest of \<open>RenderFrame\<close> (lines 406-422), the frame proper, for ring size \<open>N\<close>.
  \<open>mFrames.at\<close> throws \<open>std::out_of_range\<close> beyond the array.
\<close>

definition RenderFrame_body :: "nat \<Rightarrow> natives \<Rightarrow> HelloSkiaWindow \<Rightarrow> outcome" where
  "RenderFrame_body N nv s1 =
     (let s2 = s1\<lparr>mFrameCounter := mFrameCounter s1 + 1\<rparr>;
          i = mFrameIndex s2
      in if length (mFrames s2) \<le> i then Raised out_of_range s2
         else
           (let s3 = s2\<lparr>mFrameIndex := (mFrameIndex s2 + 1) mod N\<rparr>;
                s4 = wait_for_frame (frame_mFenceValue (mFrames s3 ! i)) s3
            in andThen (CheckHResult (hrAllocatorReset nv) (call (AllocatorReset i) s4)) (\<lambda>s5.
                 let fenceValue = mFenceValue s5 + 1;
                     s6 = s5\<lparr>mFenceValue := fenceValue\<rparr>;
                     s7 = s6\<lparr>mFrames := (mFrames s6)[i := (mFrames s6 ! i)\<lparr>frame_mFenceValue := fenceValue\<rparr>]\<rparr>
                 in andThen (CheckHResult (hrCommandListReset nv) (call (CommandListReset i) s7)) (\<lambda>s8.
                    andThen (RenderNonSkiaContent nv i s8) (\<lambda>s9.
                    andThen (RenderSkiaContent i s9) (\<lambda>s10.
                      CheckHResult (hrPresent nv) (call Present s10)))))))"

text \<open>\<open>RenderFrame\<close> (lines 391-423): the pending-resize block, then the frame.\<close>

definition RenderFrame :: "nat \<Rightarrow> natives \<Rightarrow> HelloSkiaWindow \<Rightarrow> outcome" where
  "RenderFrame N nv s = andThen (RenderFrame_resize N nv s) (RenderFrame_body N nv)"

text \<open>Successive calls of \<open>RenderFrame\<close>, one per element of the list.\<close>

fun RenderFrames :: "nat \<Rightarrow> natives list \<Rightarrow> HelloSkiaWindow \<Rightarrow> outcome" where
  "RenderFrames N [] s = Returned s"
| "RenderFrames N (nv # nvs) s = andThen (RenderFrame N nv s) (RenderFrames N nvs)"

subsection \<open>Messages and the render loop\<close>

record MSG =
  message :: "32 word"
  wParam :: "64 word"
  lParam :: "64 word"

definition WM_SIZE :: "32 word" where "WM_SIZE = 0x0005"
definition WM_CLOSE :: "32 word" where "WM_CLOSE = 0x0010"
definition WM_QUIT :: "32 word" where "WM_QUIT = 0x0012"

definition LOWORD :: "64 word \<Rightarrow> 32 word" where
  "LOWORD l = ucast (take_bit 16 l)"

definition HIWORD :: "64 word \<Rightarrow> 32 word" where
  "HIWORD l = ucast (take_bit 16 (drop_bit 16 l))"

text \<open>
  \<open>WindowProc\<close> (lines 455-471), as its effect on the window behind \<open>gInstance\<close>.
  The \<open>LRESULT\<close> goes back to the system and is not read by the program; what
  \<open>DefWindowProcW\<close> does with a message is the system's business.
\<close>

definition WindowProc :: "32 word \<Rightarrow> 64 word \<Rightarrow> 64 word \<Rightarrow> HelloSkiaWindow \<Rightarrow> HelloSkiaWindow" where
  "WindowProc uMsg wp lp s =
     (if uMsg = WM_SIZE
      then s\<lparr>mPendingResize := Some \<lparr>mWidth = LOWORD lp, mHeight = HIWORD lp\<rparr>\<rparr>
      else if uMsg = WM_CLOSE then s\<lparr>mExitCode := Some 0\<rparr>
      else s)"

text \<open>
  The inner loop of \<open>Run\<close> (lines 432-438) over the messages that \<open>PeekMessage\<close>
  hands out in one iteration. The flag says that \<open>WM_QUIT\<close> was met; the messages
  behind it stay in the queue.
\<close>

fun pump :: "MSG list \<Rightarrow> HelloSkiaWindow \<Rightarrow> HelloSkiaWindow \<times> bool" where
  "pump [] s = (s, False)"
| "pump (m # ms) s =
     (let s1 = WindowProc (message m) (wParam m) (lParam m) s
      in if message m = WM_QUIT then (s1, True) else pump ms s1)"

text \<open>
  \<open>Run\<close> (lines 425-453) is \<open>noexcept\<close>: an exception that reaches it ends the
  process through \<open>std::terminate\<close>. The loop has no bound of its own; the model runs
  it over a script with one entry per iteration, and \<open>Running\<close> is the loop still
  going when the script ends. The pacing wait at the end of an iteration changes no
  member.
\<close>

datatype run_result =
    Exit int HelloSkiaWindow
  | Terminated error HelloSkiaWindow
  | Running HelloSkiaWindow

fun value_or :: "int option \<Rightarrow> int \<Rightarrow> int" where
  "value_or None d = d"
| "value_or (Some c) d = c"

fun Run :: "nat \<Rightarrow> (MSG list \<times> natives) list \<Rightarrow> HelloSkiaWindow \<Rightarrow> run_result" where
  "Run N its s =
     (case mExitCode s of
        Some c \<Rightarrow> Exit c s
      | None \<Rightarrow>
          (case its of
             [] \<Rightarrow> Running s
           | (ms, nv) # rest \<Rightarrow>
               (case pump ms s of
                  (s1, True) \<Rightarrow> Exit (value_or (mExitCode s1) 0) s1
                | (s1, False) \<Rightarrow>
                    (case RenderFrame N nv s1 of
                       Returned s2 \<Rightarrow> Run N rest s2
                     | Raised e s2 \<Rightarrow> Terminated e s2))))"

declare Run.simps [simp del]

subsection \<open>Construction and destruction\<close>

text \<open>
  Modelled from the spec: the default member initialisers are in
  Win32-Ganesh-D3D12.hpp, which is not among the sources. The spec has every slot
  start idle with no marker and the ring start at slot 0; the fence is created with
  value 0 (line 121) and \<open>mWindowSize\<close> is read back from the new swap chain
  (line 171).
\<close>

definition initial :: "nat \<Rightarrow> PixelSize \<Rightarrow> HelloSkiaWindow" where
  "initial N sz =
     \<lparr>mExitCode = None, mWindowSize = sz, mPendingResize = None, mSwapChain = sz,
      mFenceValue = 0,
      mFrames = replicate N \<lparr>mRenderTarget = None, mRenderTargetView = 0,
                             mSkSurface = None, frame_mFenceValue = 0\<rparr>,
      mFrameIndex = 0, mFrameCounter = 0, calls = []\<rparr>"

text \<open>
  The constructor (lines 56-63), from the point where window, device, queue and swap
  chain exist: \<open>CreateRenderTargets\<close>.
\<close>

definition HelloSkiaWindow_ctor :: "nat \<Rightarrow> natives \<Rightarrow> PixelSize \<Rightarrow> outcome" where
  "HelloSkiaWindow_ctor N nv sz = CreateRenderTargets N nv (initial N sz)"

text \<open>The destructor (lines 248-252).\<close>

definition HelloSkiaWindow_dtor :: "natives \<Rightarrow> HelloSkiaWindow \<Rightarrow> outcome" where
  "HelloSkiaWindow_dtor nv s = CleanupFrameContexts nv s"

subsection \<open>Reading the log\<close>

text \<open>The markers signalled on the queue, by the program itself or by Skia's flush.\<close>

fun signalled :: "call \<Rightarrow> marker option" where
  "signalled (Signal m) = Some m"
| "signalled (SkFlush i m) = Some m"
| "signalled c = None"

definition issued :: "call list \<Rightarrow> marker list" where
  "issued cs = List.map_filter signalled cs"

fun reset_slot :: "call \<Rightarrow> nat option" where
  "reset_slot (AllocatorReset i) = Some i"
| "reset_slot c = None"

text \<open>The slots whose command allocator was reset, in order: one per frame begun.\<close>

definition visits :: "call list \<Rightarrow> nat list" where
  "visits cs = List.map_filter reset_slot cs"

text \<open>The calls that block the CPU until the GPU has caught up.\<close>

fun cpu_blocking :: "call \<Rightarrow> bool" where
  "cpu_blocking WaitForSingleObject = True"
| "cpu_blocking (SkFlushAndSubmit sync) = sync"
| "cpu_blocking (SkSubmit sync) = sync"
| "cpu_blocking c = False"

text \<open>Every call whose result the model reads answers with success.\<close>

definition all_ok :: "nat \<Rightarrow> natives \<Rightarrow> bool" where
  "all_ok N nv =
     (SUCCEEDED (hrSignalCleanup nv) \<and> SUCCEEDED (hrSetEventCleanup nv) \<and>
      SUCCEEDED (hrResizeBuffers nv) \<and> list_all (\<lambda>i. SUCCEEDED (hrGetBuffer nv i)) [0..<N] \<and>
      SUCCEEDED (hrGetDesc1 nv) \<and>
      SUCCEEDED (hrAllocatorReset nv) \<and> SUCCEEDED (hrCommandListReset nv) \<and>
      SUCCEEDED (hrClose nv) \<and> SUCCEEDED (hrSignal nv) \<and> SUCCEEDED (hrPresent nv))"

text \<open>A collaborator that answers \<open>S_OK\<close> everywhere.\<close>

definition S_OK :: HRESULT where "S_OK = 0"

definition E_OUTOFMEMORY :: HRESULT where "E_OUTOFMEMORY = 0x8007000E"

definition ok_natives :: natives where
  "ok_natives =
     \<lparr>hrSignalCleanup = S_OK, hrSetEventCleanup = S_OK, hrResizeBuffers = S_OK,
      hrGetBuffer = (\<lambda>i. S_OK), hrSetName = S_OK, hrGetDesc1 = S_OK,
      hrSetEventOnCompletion = S_OK,
      hrAllocatorReset = S_OK, hrCommandListReset = S_OK, hrClose = S_OK,
      hrSignal = S_OK, hrPresent = S_OK, rtvStart = 4096, rtvStep = 32,
      clientArea = \<lparr>mWidth = 640, mHeight = 480\<rparr>,
      unwritten = \<lparr>mWidth = 0, mHeight = 0\<rparr>\<rparr>"

text \<open>
  The shape a window has between two frames: \<open>N\<close> slots, the ring index inside the
  ring, every slot holding a surface.
\<close>

definition wf :: "nat \<Rightarrow> HelloSkiaWindow \<Rightarrow> bool" where
  "wf N s = (0 < N \<and> length (mFrames s) = N \<and> mFrameIndex s < N \<and>
             list_all (\<lambda>f. mSkSurface f \<noteq> None) (mFrames s))"

subsection \<open>The call sequences of the protocol\<close>

text \<open>
  The sequences the spec describes, against which the log is compared: the wait
  before a slot is reused, the frame on slot \<open>i\<close> with markers \<open>m1\<close> (program) and
  \<open>m2\<close> (Skia), the quiescence on marker \<open>m\<close>, and the creation of one render target.
\<close>

definition wait_calls :: "marker \<Rightarrow> call list" where
  "wait_calls m = (if m = 0 then [] else [SetEventOnCompletion m, WaitForSingleObject])"

definition frame_calls :: "nat \<Rightarrow> marker \<Rightarrow> marker \<Rightarrow> PixelSize \<Rightarrow> nat \<Rightarrow> call list" where
  "frame_calls i m1 m2 ws fc =
     [AllocatorReset i, CommandListReset i, ResourceBarrier i, ClearRenderTargetView i,
      OMSetRenderTargets i, SetDescriptorHeaps, Close, ExecuteCommandLists, Signal m1,
      SkWait m1, SetD3DResourceState i, DrawRoundRect i ws, DrawString i fc,
      SkFlush i m2, SkSubmit False, Present]"

definition quiesce_calls :: "marker \<Rightarrow> call list" where
  "quiesce_calls m = [SkFlushAndSubmit True, Signal m, SetEventOnCompletion m, WaitForSingleObject]"

definition all_release_calls :: "FrameContext list \<Rightarrow> call list" where
  "all_release_calls fs = concat (map (\<lambda>(i, f). release_calls i f) (enumerate 0 fs))"

definition create_calls :: "natives \<Rightarrow> PixelSize \<Rightarrow> nat \<Rightarrow> call list" where
  "create_calls nv sz i =
     [GetBuffer i, SetName i,
      CreateRenderTargetView i (rtvStart nv + ucast (word_of_nat i * rtvStep nv)),
      GetDesc1, WrapBackendRenderTarget i sz]"

text \<open>The calls logged between two states of the same window.\<close>

definition new_calls :: "HelloSkiaWindow \<Rightarrow> HelloSkiaWindow \<Rightarrow> call list" where
  "new_calls s s' = drop (length (calls s)) (calls s')"

text \<open>The slots after \<open>CreateRenderTargets\<close> went through the buffers \<open>is\<close>.\<close>

definition created_frame :: "natives \<Rightarrow> PixelSize \<Rightarrow> nat \<Rightarrow> FrameContext \<Rightarrow> FrameContext" where
  "created_frame nv sz i f =
     f\<lparr>mRenderTarget := Some i,
       mRenderTargetView := rtvStart nv + ucast (word_of_nat i * rtvStep nv),
       mSkSurface := Some sz\<rparr>"

fun created :: "natives \<Rightarrow> PixelSize \<Rightarrow> nat list \<Rightarrow> FrameContext list \<Rightarrow> FrameContext list" where
  "created nv sz [] fs = fs"
| "created nv sz (i # is) fs = created nv sz is (fs[i := created_frame nv sz i (fs ! i)])"

subsection \<open>Properties of logs and windows used below\<close>

text \<open>
  The calls that the pending-resize block and the destructor make: no command
  allocator is touched and no frame is drawn by them.
\<close>

fun setup_call :: "call \<Rightarrow> bool" where
  "setup_call (SkFlushAndSubmit sync) = True"
| "setup_call (Signal m) = True"
| "setup_call (SetEventOnCompletion m) = True"
| "setup_call WaitForSingleObject = True"
| "setup_call (ReleaseSurface i) = True"
| "setup_call (ReleaseRenderTarget i) = True"
| "setup_call (ResizeBuffers w h) = True"
| "setup_call (GetBuffer i) = True"
| "setup_call (SetName i) = True"
| "setup_call (CreateRenderTargetView i v) = True"
| "setup_call GetDesc1 = True"
| "setup_call (WrapBackendRenderTarget i sz) = True"
| "setup_call (OutputDebugStringA hr) = True"
| "setup_call c = False"

text \<open>\<open>s'\<close> has the log of \<open>s\<close> followed by calls that all satisfy \<open>P\<close>.\<close>

definition extends :: "(call \<Rightarrow> bool) \<Rightarrow> HelloSkiaWindow \<Rightarrow> HelloSkiaWindow \<Rightarrow> bool" where
  "extends P s s' =
     (take (length (calls s)) (calls s') = calls s \<and> list_all P (new_calls s s'))"

text \<open>
  The markers signalled so far are strictly increasing and none exceeds the counter,
  and the counter can still be incremented \<open>b\<close> times before it wraps.
\<close>

definition markers_ok :: "nat \<Rightarrow> HelloSkiaWindow \<Rightarrow> bool" where
  "markers_ok b s =
     (sorted_wrt (<) (issued (calls s)) \<and> list_all (\<lambda>m. m \<le> mFenceValue s) (issued (calls s)) \<and>
      unat (mFenceValue s) + b < 2 ^ 64)"

subsection \<open>Sample windows\<close>

text \<open>
  A window of 300 by 200 with a ring of two, as the constructor leaves it when every
  call succeeds, and the same window two frames later, both slots in flight.
\<close>

definition sample_size :: PixelSize where
  "sample_size = \<lparr>mWidth = 300, mHeight = 200\<rparr>"

definition sample_window :: HelloSkiaWindow where
  "sample_window =
     \<lparr>mExitCode = None, mWindowSize = sample_size, mPendingResize = None,
      mSwapChain = sample_size, mFenceValue = 0,
      mFrames = [\<lparr>mRenderTarget = Some 0, mRenderTargetView = 4096,
                   mSkSurface = Some sample_size, frame_mFenceValue = 0\<rparr>,
                 \<lparr>mRenderTarget = Some 1, mRenderTargetView = 4128,
                   mSkSurface = Some sample_size, frame_mFenceValue = 0\<rparr>],
      mFrameIndex = 0, mFrameCounter = 0,
      calls = create_calls ok_natives sample_size 0 @ create_calls ok_natives sample_size 1\<rparr>"

definition sample_reused :: HelloSkiaWindow where
  "sample_reused =
     \<lparr>mExitCode = None, mWindowSize = sample_size, mPendingResize = None,
      mSwapChain = sample_size, mFenceValue = 4,
      mFrames = [\<lparr>mRenderTarget = Some 0, mRenderTargetView = 4096,
                   mSkSurface = Some sample_size, frame_mFenceValue = 2\<rparr>,
                 \<lparr>mRenderTarget = Some 1, mRenderTargetView = 4128,
                   mSkSurface = Some sample_size, frame_mFenceValue = 4\<rparr>],
      mFrameIndex = 0, mFrameCounter = 2,
      calls = create_calls ok_natives sample_size 0 @ create_calls ok_natives sample_size 1 @
              frame_calls 0 1 2 sample_size 1 @ frame_calls 1 3 4 sample_size 2\<rparr>"

text \<open>The calls of the log that signal a marker on the queue.\<close>

definition queue_signals :: "call list \<Rightarrow> call list" where
  "queue_signals cs = filter (\<lambda>c. signalled c \<noteq> None) cs"

text \<open>
  The two signals of the \<open>k\<close>-th frame after a window whose counter is \<open>c\<close> and whose
  ring index is \<open>i\<close>: the program's own, then Skia's.
\<close>

definition frame_signals :: "nat \<Rightarrow> marker \<Rightarrow> nat \<Rightarrow> nat \<Rightarrow> call list" where
  "frame_signals N c i k =
     [Signal (c + word_of_nat (2 * k + 1)), SkFlush ((i + k) mod N) (c + word_of_nat (2 * k + 2))]"

subsection \<open>Properties of messages\<close>

fun resize_call :: "call \<Rightarrow> bool" where
  "resize_call (ResizeBuffers w h) = True"
| "resize_call c = False"

text \<open>The size a \<open>WM_SIZE\<close> message carries.\<close>

definition size_of :: "MSG \<Rightarrow> PixelSize" where
  "size_of m = \<lparr>mWidth = LOWORD (lParam m), mHeight = HIWORD (lParam m)\<rparr>"

text \<open>
  Coalescing as the spec words it: of the sizes notified since the last frame only
  the latest is retained.
\<close>

fun pending_after :: "MSG list \<Rightarrow> PixelSize option \<Rightarrow> PixelSize option" where
  "pending_after [] p = p"
| "pending_after (m # ms) p =
     pending_after ms (if message m = WM_SIZE then Some (size_of m) else p)"



text \<open>A message with the given identifier and \<open>lParam\<close>.\<close>

definition sample_message :: "32 word \<Rightarrow> 64 word \<Rightarrow> MSG" where
  "sample_message u lp = \<lparr>message = u, wParam = 0, lParam = lp\<rparr>"

subsection \<open>Counting markers\<close>

text \<open>
  Between \<open>s\<close> and \<open>s'\<close> the counter went up by \<open>k\<close>, and the markers signalled in
  between are the counter values of \<open>s\<close> plus some of \<open>1, \<dots>, k\<close> in increasing order.
\<close>

definition bumps :: "nat \<Rightarrow> HelloSkiaWindow \<Rightarrow> HelloSkiaWindow \<Rightarrow> bool" where
  "bumps k s s' =
     (mFenceValue s' = mFenceValue s + word_of_nat k \<and>
      (\<exists>js. issued (calls s') = issued (calls s) @ map (\<lambda>j. mFenceValue s + word_of_nat j) js \<and>
            sorted_wrt (<) js \<and> list_all (\<lambda>j. 0 < j \<and> j \<le> k) js))"

fun run_final :: "run_result \<Rightarrow> HelloSkiaWindow" where
  "run_final (Exit c s) = s"
| "run_final (Terminated e s) = s"
| "run_final (Running s) = s"

text \<open>
  A window with a ring of two whose counter has reached the largest 64-bit value, the
  markers of its last two frames in the log.
\<close>

definition sample_at_limit :: HelloSkiaWindow where
  "sample_at_limit =
     \<lparr>mExitCode = None, mWindowSize = sample_size, mPendingResize = None,
      mSwapChain = sample_size, mFenceValue = 0xFFFFFFFFFFFFFFFF,
      mFrames = [\<lparr>mRenderTarget = Some 0, mRenderTargetView = 4096,
                   mSkSurface = Some sample_size, frame_mFenceValue = 0xFFFFFFFFFFFFFFFD\<rparr>,
                 \<lparr>mRenderTarget = Some 1, mRenderTargetView = 4128,
                   mSkSurface = Some sample_size, frame_mFenceValue = 0xFFFFFFFFFFFFFFFF\<rparr>],
      mFrameIndex = 0, mFrameCounter = 2,
      calls = frame_calls 0 0xFFFFFFFFFFFFFFFC 0xFFFFFFFFFFFFFFFD sample_size 1 @
              frame_calls 1 0xFFFFFFFFFFFFFFFE 0xFFFFFFFFFFFFFFFF sample_size 2\<rparr>"

subsection \<open>Checked calls\<close>

text \<open>
  Fail-fast as the spec words it. An operation is a sequence of native calls in
  program order, each either passed to \<open>CheckHResult\<close> together with its result, or
  made without a check. The calls are made one after the other; at the first checked
  call whose result is a failure the diagnostic is written and the operation ends
  with that result: nothing after it is called, and it is not called again.
\<close>

datatype step = Checked call HRESULT | Unchecked call

fun fail_fast_calls :: "step list \<Rightarrow> call list" where
  "fail_fast_calls [] = []"
| "fail_fast_calls (Unchecked c # steps) = c # fail_fast_calls steps"
| "fail_fast_calls (Checked c hr # steps) =
     (if SUCCEEDED hr then c # fail_fast_calls steps else [c, OutputDebugStringA hr])"

fun fail_fast_error :: "step list \<Rightarrow> error option" where
  "fail_fast_error [] = None"
| "fail_fast_error (Unchecked c # steps) = fail_fast_error steps"
| "fail_fast_error (Checked c hr # steps) =
     (if SUCCEEDED hr then fail_fast_error steps else Some (system_error hr))"

text \<open>
  The outcome \<open>r\<close> of an operation begun in \<open>s\<close> is the fail-fast run of \<open>steps\<close>: the
  log grew by exactly the calls of that run, and the operation returned when the run
  met no failure and threw \<open>std::system_error\<close> with the failing result otherwise.
\<close>

fun thrown :: "outcome \<Rightarrow> error option" where
  "thrown (Returned s) = None"
| "thrown (Raised e s) = Some e"

definition carries_out :: "step list \<Rightarrow> HelloSkiaWindow \<Rightarrow> outcome \<Rightarrow> bool" where
  "carries_out steps s r =
     (calls (final r) = calls s @ fail_fast_calls steps \<and> thrown r = fail_fast_error steps)"

text \<open>
  The native calls of the lifecycle, with the checks the source has: the quiescence
  (lines 474-485) on marker \<open>m\<close> of a ring of \<open>N\<close> slots that all hold a surface and
  a render target, the creation of render target \<open>i\<close> (lines 260-290) for a swap
  chain of size \<open>sz\<close>, and the frame (lines 411-422, with lines 310-324 and 359-388)
  on slot \<open>i\<close> with stored marker \<open>m\<close> when the counter is \<open>c\<close>.
\<close>

definition quiesce_steps :: "natives \<Rightarrow> marker \<Rightarrow> nat \<Rightarrow> step list" where
  "quiesce_steps nv m N =
     [Unchecked (SkFlushAndSubmit True), Checked (Signal m) (hrSignalCleanup nv),
      Checked (SetEventOnCompletion m) (hrSetEventCleanup nv), Unchecked WaitForSingleObject] @
     concat (map (\<lambda>i. [Unchecked (ReleaseSurface i), Unchecked (ReleaseRenderTarget i)]) [0..<N])"

definition create_steps :: "natives \<Rightarrow> PixelSize \<Rightarrow> nat \<Rightarrow> step list" where
  "create_steps nv sz i =
     [Checked (GetBuffer i) (hrGetBuffer nv i), Unchecked (SetName i),
      Unchecked (CreateRenderTargetView i (rtvStart nv + ucast (word_of_nat i * rtvStep nv))),
      Unchecked GetDesc1, Unchecked (WrapBackendRenderTarget i sz)]"

definition frame_steps :: "natives \<Rightarrow> nat \<Rightarrow> marker \<Rightarrow> marker \<Rightarrow> PixelSize \<Rightarrow> nat \<Rightarrow> step list" where
  "frame_steps nv i m c ws fc =
     (if m = 0 then [] else [Unchecked (SetEventOnCompletion m), Unchecked WaitForSingleObject]) @
     [Checked (AllocatorReset i) (hrAllocatorReset nv),
      Checked (CommandListReset i) (hrCommandListReset nv),
      Unchecked (ResourceBarrier i), Unchecked (ClearRenderTargetView i),
      Unchecked (OMSetRenderTargets i), Unchecked SetDescriptorHeaps,
      Checked Close (hrClose nv), Unchecked ExecuteCommandLists,
      Checked (Signal (c + 1)) (hrSignal nv), Unchecked (SkWait (c + 1)),
      Unchecked (SetD3DResourceState i), Unchecked (DrawRoundRect i ws),
      Unchecked (DrawString i fc), Unchecked (SkFlush i (c + 2)), Unchecked (SkSubmit False),
      Checked Present (hrPresent nv)]"

text \<open>
  The calls of \<open>RenderFrame\<close> (lines 391-423) in window \<open>s\<close>. With a resize pending
  the ring is quiesced, the swap chain resized and the targets created again before
  the frame, which then runs on slot 0 with no stored marker, one marker after the
  quiescence.
\<close>

definition RenderFrame_steps :: "nat \<Rightarrow> natives \<Rightarrow> HelloSkiaWindow \<Rightarrow> step list" where
  "RenderFrame_steps N nv s =
     (case mPendingResize s of
        None \<Rightarrow>
          frame_steps nv (mFrameIndex s) (frame_mFenceValue (mFrames s ! mFrameIndex s))
            (mFenceValue s) (mWindowSize s) (mFrameCounter s + 1)
      | Some sz \<Rightarrow>
          quiesce_steps nv (mFenceValue s + 1) N @
          [Checked (ResizeBuffers (mWidth sz) (mHeight sz)) (hrResizeBuffers nv)] @
          concat (map (create_steps nv
            \<lparr>mWidth = (if mWidth sz = 0 then mWidth (clientArea nv) else mWidth sz),
             mHeight = (if mHeight sz = 0 then mHeight (clientArea nv) else mHeight sz)\<rparr>) [0..<N]) @
          frame_steps nv 0 0 (mFenceValue s + 1) sz (mFrameCounter s + 1))"

subsection \<open>What the log shows of the GPU\<close>

text \<open>
  The queue signals a marker when the work queued before the signal is done: the
  program's own \<open>Signal\<close>, and the flush of the library on slot \<open>i\<close>, whose marker
  stands for the slot's work of that frame. The fence reaches the markers in the
  order in which the queue signals them. So when the CPU has armed the event with
  \<open>SetEventOnCompletion m\<close> and then waited on it, the signal of \<open>m\<close> and every signal
  queued before it have happened. The monitor reads the log call by call and keeps
  the marker the event was last armed with and the signals, latest first, that no
  such wait has covered yet.
\<close>

type_synonym monitor = "marker option \<times> call list"

fun observe :: "call \<Rightarrow> monitor \<Rightarrow> monitor" where
  "observe (SkFlush i m) (a, p) = (a, SkFlush i m # p)"
| "observe (Signal m) (a, p) = (a, Signal m # p)"
| "observe (SetEventOnCompletion m) (a, p) = (Some m, p)"
| "observe WaitForSingleObject (None, p) = (None, p)"
| "observe WaitForSingleObject (Some m, p) = (None, takeWhile (\<lambda>c. signalled c \<noteq> Some m) p)"
| "observe c (a, p) = (a, p)"

fun observed :: "call list \<Rightarrow> monitor \<Rightarrow> monitor" where
  "observed [] st = st"
| "observed (c # cs) st = observed cs (observe c st)"

text \<open>A submission of slot \<open>i\<close>.\<close>

fun submission_on :: "nat \<Rightarrow> call \<Rightarrow> bool" where
  "submission_on i (SkFlush j m) = (j = i)"
| "submission_on i c = False"

text \<open>
  No command allocator is reset while a submission of its slot is not known to be
  complete: at every \<open>AllocatorReset i\<close> of the log the monitor holds no submission of
  slot \<open>i\<close>.
\<close>

fun safe_resets :: "call list \<Rightarrow> monitor \<Rightarrow> bool" where
  "safe_resets [] st = True"
| "safe_resets (c # cs) st =
     ((case reset_slot c of
         None \<Rightarrow> True
       | Some i \<Rightarrow> list_all (\<lambda>c'. \<not> submission_on i c') (snd st)) \<and>
      safe_resets cs (observe c st))"

text \<open>
  What holds of a window between two frames while the counter has not wrapped: the
  resets so far were safe, and a submission that no wait has covered yet is on a slot
  of the ring and carries that slot's stored marker, which is not zero.
\<close>

fun stored :: "nat \<Rightarrow> HelloSkiaWindow \<Rightarrow> call \<Rightarrow> bool" where
  "stored N s (SkFlush i m) = (i < N \<and> m = frame_mFenceValue (mFrames s ! i) \<and> m \<noteq> 0)"
| "stored N s c = True"

definition tracked :: "nat \<Rightarrow> HelloSkiaWindow \<Rightarrow> bool" where
  "tracked N s =
     (safe_resets (calls s) (None, []) \<and>
      list_all (stored N s) (snd (observed (calls s) (None, []))))"

text \<open>
  A window with a ring of two whose counter is two below the wrap, as it is after
  \<open>2 ^ 63 - 1\<close> frames without a resize: the last frame ran on slot 0, the one
  before on slot 1. The log holds the submissions of these two frames.
\<close>

definition sample_before_wrap :: HelloSkiaWindow where
  "sample_before_wrap =
     \<lparr>mExitCode = None, mWindowSize = sample_size, mPendingResize = None,
      mSwapChain = sample_size, mFenceValue = 0xFFFFFFFFFFFFFFFE,
      mFrames = [\<lparr>mRenderTarget = Some 0, mRenderTargetView = 4096,
                   mSkSurface = Some sample_size, frame_mFenceValue = 0xFFFFFFFFFFFFFFFE\<rparr>,
                 \<lparr>mRenderTarget = Some 1, mRenderTargetView = 4128,
                   mSkSurface = Some sample_size, frame_mFenceValue = 0xFFFFFFFFFFFFFFFC\<rparr>],
      mFrameIndex = 1, mFrameCounter = 9223372036854775807,
      calls = frame_calls 1 0xFFFFFFFFFFFFFFFB 0xFFFFFFFFFFFFFFFC sample_size 9223372036854775806 @
              frame_calls 0 0xFFFFFFFFFFFFFFFD 0xFFFFFFFFFFFFFFFE sample_size 9223372036854775807\<rparr>"

section \<open>Basic facts\<close>

lemma call_fields [simp]:
  "calls (call c s) = calls s @ [c]"
  "mFrames (call c s) = mFrames s"
  "mFenceValue (call c s) = mFenceValue s"
  "mFrameIndex (call c s) = mFrameIndex s"
  "mFrameCounter (call c s) = mFrameCounter s"
  "mPendingResize (call c s) = mPendingResize s"
  "mWindowSize (call c s) = mWindowSize s"
  "mSwapChain (call c s) = mSwapChain s"
  "mExitCode (call c s) = mExitCode s"
  by (simp_all add: call_def)

lemma CheckHResult_ok [simp]: "SUCCEEDED hr \<Longrightarrow> CheckHResult hr s = Returned s"
  by (simp add: CheckHResult_def)

lemma CheckHResult_failed [simp]:
  "\<not> SUCCEEDED hr \<Longrightarrow> CheckHResult hr s = Raised (system_error hr) (call (OutputDebugStringA hr) s)"
  by (simp add: CheckHResult_def)

subsection \<open>The frame when every call succeeds\<close>

lemma RenderFrame_body_ok:
  assumes "mFrameIndex s < length (mFrames s)"
    and "mSkSurface (mFrames s ! mFrameIndex s) \<noteq> None"
    and "SUCCEEDED (hrAllocatorReset nv)"
      "SUCCEEDED (hrCommandListReset nv)" "SUCCEEDED (hrClose nv)" "SUCCEEDED (hrSignal nv)"
      "SUCCEEDED (hrPresent nv)"
  shows "RenderFrame_body N nv s =
     Returned (s\<lparr>mFrameCounter := mFrameCounter s + 1,
                 mFrameIndex := (mFrameIndex s + 1) mod N,
                 mFenceValue := mFenceValue s + 2,
                 mFrames := (mFrames s)[mFrameIndex s :=
                    (mFrames s ! mFrameIndex s)\<lparr>frame_mFenceValue := mFenceValue s + 2\<rparr>],
                 calls := calls s @ wait_calls (frame_mFenceValue (mFrames s ! mFrameIndex s)) @
                    frame_calls (mFrameIndex s) (mFenceValue s + 1) (mFenceValue s + 2)
                      (mWindowSize s) (mFrameCounter s + 1)\<rparr>)"
  using assms
  by (auto simp: RenderFrame_body_def wait_for_frame_def RenderNonSkiaContent_def
      RenderSkiaContent_def RenderSkiaContent_canvas_def Let_def wait_calls_def frame_calls_def
      call_def add.commute)

lemma length_created [simp]: "length (created nv sz is fs) = length fs"
  by (induction "is" arbitrary: fs) simp_all

lemma nth_created:
  "j < length fs \<Longrightarrow> created nv sz is fs ! j =
     (if j \<in> set is then created_frame nv sz j (fs ! j) else fs ! j)"
proof (induction "is" arbitrary: fs)
  case Nil
  then show ?case by simp
next
  case (Cons i "is")
  show ?case
  proof (cases "i = j")
    case True
    with Cons show ?thesis by (simp add: created_frame_def)
  next
    case False
    with Cons show ?thesis by simp
  qed
qed

lemma CreateRenderTarget_ok:
  assumes "SUCCEEDED (hrGetBuffer nv i)" "SUCCEEDED (hrGetDesc1 nv)"
  shows "CreateRenderTarget nv i s =
     Returned (s\<lparr>mFrames := (mFrames s)[i := created_frame nv (mSwapChain s) i (mFrames s ! i)],
                 calls := calls s @ create_calls nv (mSwapChain s) i\<rparr>)"
  using assms
  by (simp add: CreateRenderTarget_def Let_def create_calls_def created_frame_def call_def)

lemma CreateRenderTargets_from_ok:
  assumes "list_all (\<lambda>i. SUCCEEDED (hrGetBuffer nv i)) is" "SUCCEEDED (hrGetDesc1 nv)"
  shows "CreateRenderTargets_from nv is s =
     Returned (s\<lparr>mFrames := created nv (mSwapChain s) is (mFrames s),
                 calls := calls s @ concat (map (create_calls nv (mSwapChain s)) is)\<rparr>)"
  using assms
proof (induction "is" arbitrary: s)
  case Nil
  then show ?case by simp
next
  case (Cons i "is")
  then show ?case
    by (simp add: CreateRenderTarget_ok)
qed

lemma CleanupFrameContexts_ok:
  assumes "SUCCEEDED (hrSignalCleanup nv)" "SUCCEEDED (hrSetEventCleanup nv)"
  shows "CleanupFrameContexts nv s =
     Returned (s\<lparr>mFenceValue := mFenceValue s + 1, mFrameIndex := 0,
                 mFrames := map release_frame (mFrames s),
                 calls := calls s @ quiesce_calls (mFenceValue s + 1) @
                            all_release_calls (mFrames s)\<rparr>)"
  using assms
  by (simp add: CleanupFrameContexts_def Let_def release_all_def quiesce_calls_def
      all_release_calls_def call_def)

lemma RenderFrame_resize_ok:
  assumes "mPendingResize s = Some sz" "all_ok N nv"
  shows "RenderFrame_resize N nv s =
     Returned (s\<lparr>mFenceValue := mFenceValue s + 1, mFrameIndex := 0,
                 mSwapChain := resized nv sz, mWindowSize := sz, mPendingResize := None,
                 mFrames := created nv (resized nv sz) [0..<N] (map release_frame (mFrames s)),
                 calls := calls s @ quiesce_calls (mFenceValue s + 1) @
                   all_release_calls (mFrames s) @ [ResizeBuffers (mWidth sz) (mHeight sz)] @
                   concat (map (create_calls nv (resized nv sz)) [0..<N])\<rparr>)"
  using assms
  by (simp add: RenderFrame_resize_def all_ok_def CleanupFrameContexts_ok
      CreateRenderTargets_def CreateRenderTargets_from_ok call_def)

lemma wf_created_surface:
  assumes "j < length fs" "j < N"
  shows "mSkSurface (created nv sz [0..<N] fs ! j) = Some sz"
  using assms by (simp add: nth_created created_frame_def)

lemma marker_created [simp]:
  "j < length fs \<Longrightarrow> frame_mFenceValue (created nv sz is fs ! j) = frame_mFenceValue (fs ! j)"
  by (simp add: nth_created created_frame_def)

lemma RenderFrame_ok_no_resize:
  assumes "wf N s" "mPendingResize s = None" "all_ok N nv"
  shows "RenderFrame N nv s =
     Returned (s\<lparr>mFrameCounter := mFrameCounter s + 1,
                 mFrameIndex := (mFrameIndex s + 1) mod N,
                 mFenceValue := mFenceValue s + 2,
                 mFrames := (mFrames s)[mFrameIndex s :=
                    (mFrames s ! mFrameIndex s)\<lparr>frame_mFenceValue := mFenceValue s + 2\<rparr>],
                 calls := calls s @ wait_calls (frame_mFenceValue (mFrames s ! mFrameIndex s)) @
                    frame_calls (mFrameIndex s) (mFenceValue s + 1) (mFenceValue s + 2)
                      (mWindowSize s) (mFrameCounter s + 1)\<rparr>)"
proof -
  have "mFrameIndex s < length (mFrames s)" "mSkSurface (mFrames s ! mFrameIndex s) \<noteq> None"
    using assms(1) by (auto simp: wf_def list_all_length)
  then show ?thesis
    using assms(2,3)
    by (simp add: RenderFrame_def RenderFrame_resize_def RenderFrame_body_ok all_ok_def)
qed

lemma RenderFrame_ok_resize:
  assumes "wf N s" "mPendingResize s = Some sz" "all_ok N nv"
  shows "RenderFrame N nv s =
     Returned (s\<lparr>mFrameCounter := mFrameCounter s + 1,
                 mFrameIndex := 1 mod N,
                 mFenceValue := mFenceValue s + 3,
                 mSwapChain := resized nv sz, mWindowSize := sz, mPendingResize := None,
                 mFrames := (created nv (resized nv sz) [0..<N] (map release_frame (mFrames s)))
                    [0 := (created nv (resized nv sz) [0..<N] (map release_frame (mFrames s)) ! 0)
                            \<lparr>frame_mFenceValue := mFenceValue s + 3\<rparr>],
                 calls := calls s @ quiesce_calls (mFenceValue s + 1) @
                   all_release_calls (mFrames s) @ [ResizeBuffers (mWidth sz) (mHeight sz)] @
                   concat (map (create_calls nv (resized nv sz)) [0..<N]) @
                   frame_calls 0 (mFenceValue s + 2) (mFenceValue s + 3) sz (mFrameCounter s + 1)\<rparr>)"
proof -
  have N: "0 < N" "length (mFrames s) = N"
    using assms(1) by (auto simp: wf_def)
  have ok: "SUCCEEDED (hrAllocatorReset nv)"
      "SUCCEEDED (hrCommandListReset nv)" "SUCCEEDED (hrClose nv)" "SUCCEEDED (hrSignal nv)"
      "SUCCEEDED (hrPresent nv)"
    using assms(3) by (auto simp: all_ok_def)
  show ?thesis
    unfolding RenderFrame_def RenderFrame_resize_ok [OF assms(2,3)] andThen.simps
    by (subst RenderFrame_body_ok)
       (use N ok in \<open>simp_all add: wf_created_surface wait_calls_def release_frame_def add.commute\<close>)
qed

lemma new_calls_append: "calls s' = calls s @ xs \<Longrightarrow> new_calls s s' = xs"
  by (simp add: new_calls_def)

lemma extendsI: "calls s' = calls s @ xs \<Longrightarrow> list_all P xs \<Longrightarrow> extends P s s'"
  by (simp add: extends_def new_calls_def)

lemma extendsD: "extends P s s' \<Longrightarrow> calls s' = calls s @ new_calls s s'"
  by (metis append_take_drop_id extends_def new_calls_def)

lemma extends_refl [simp]: "extends P s s"
  by (simp add: extends_def new_calls_def)

lemma extends_trans:
  assumes "extends P s s1" "extends P s1 s2"
  shows "extends P s s2"
proof -
  have "calls s2 = calls s @ new_calls s s1 @ new_calls s1 s2"
    using assms by (metis append.assoc extendsD)
  moreover have "list_all P (new_calls s s1 @ new_calls s1 s2)"
    using assms by (simp add: extends_def)
  ultimately show ?thesis by (rule extendsI)
qed

lemma new_calls_trans:
  assumes "extends P s s1" "extends Q s1 s2"
  shows "new_calls s s2 = new_calls s s1 @ new_calls s1 s2"
proof -
  have "calls s2 = calls s @ new_calls s s1 @ new_calls s1 s2"
    using assms by (metis append.assoc extendsD)
  then show ?thesis by (rule new_calls_append)
qed

lemma extends_andThen:
  assumes "extends P s (final r)" "\<And>s1. r = Returned s1 \<Longrightarrow> extends P s1 (final (f s1))"
  shows "extends P s (final (andThen r f))"
proof (cases r)
  case (Returned s1)
  with assms show ?thesis by (simp add: extends_trans [of P s s1])
next
  case (Raised e s1)
  with assms show ?thesis by simp
qed

lemma extends_call: "P c \<Longrightarrow> extends P s (call c s)"
  by (simp add: extends_def new_calls_def)

lemma extends_CheckHResult:
  "P (OutputDebugStringA hr) \<Longrightarrow> extends P s (final (CheckHResult hr s))"
  by (cases "SUCCEEDED hr") (simp_all add: extends_call)

lemma extends_CreateRenderTarget: "extends setup_call s (final (CreateRenderTarget nv i s))"
  by (cases "SUCCEEDED (hrGetBuffer nv i)")
     (simp_all add: CreateRenderTarget_def Let_def call_def extends_def new_calls_def)

lemma extends_CreateRenderTargets_from:
  "extends setup_call s (final (CreateRenderTargets_from nv is s))"
proof (induction "is" arbitrary: s)
  case Nil
  show ?case by simp
next
  case (Cons i "is")
  show ?case
    unfolding CreateRenderTargets_from.simps
    by (rule extends_andThen) (simp_all add: extends_CreateRenderTarget Cons.IH)
qed

lemma setup_release_calls: "list_all setup_call (all_release_calls fs)"
  by (auto simp: all_release_calls_def release_calls_def list_all_iff)

lemma extends_CleanupFrameContexts: "extends setup_call s (final (CleanupFrameContexts nv s))"
  by (cases "SUCCEEDED (hrSignalCleanup nv)"; cases "SUCCEEDED (hrSetEventCleanup nv)")
     (simp_all add: CleanupFrameContexts_def Let_def call_def release_all_def
        extends_def new_calls_def setup_release_calls [unfolded all_release_calls_def])

lemma extends_RenderFrame_resize: "extends setup_call s (final (RenderFrame_resize N nv s))"
proof (cases "mPendingResize s")
  case None
  then show ?thesis by (simp add: RenderFrame_resize_def)
next
  case (Some sz)
  have a: "extends setup_call s1 (final (CheckHResult (hrResizeBuffers nv)
              (call (ResizeBuffers (mWidth sz) (mHeight sz)) s1)))" for s1
    by (rule extends_trans [OF extends_call extends_CheckHResult]) simp_all
  have b: "extends setup_call s2 (final (andThen (CreateRenderTargets N nv (s2\<lparr>mSwapChain := resized nv sz\<rparr>))
              (\<lambda>s3. Returned (s3\<lparr>mWindowSize := sz, mPendingResize := None\<rparr>))))" for s2
  proof -
    have "extends setup_call (s2\<lparr>mSwapChain := resized nv sz\<rparr>)
            (final (CreateRenderTargets N nv (s2\<lparr>mSwapChain := resized nv sz\<rparr>)))"
      unfolding CreateRenderTargets_def by (rule extends_CreateRenderTargets_from)
    then have "extends setup_call (s2\<lparr>mSwapChain := resized nv sz\<rparr>)
            (final (andThen (CreateRenderTargets N nv (s2\<lparr>mSwapChain := resized nv sz\<rparr>))
              (\<lambda>s3. Returned (s3\<lparr>mWindowSize := sz, mPendingResize := None\<rparr>))))"
      by (rule extends_andThen) (simp add: extends_def new_calls_def)
    then show ?thesis by (simp add: extends_def new_calls_def)
  qed
  show ?thesis
    unfolding RenderFrame_resize_def Some option.case
  proof (rule extends_andThen [OF extends_CleanupFrameContexts])
    fix s1
    show "extends setup_call s1
       (final (andThen (CheckHResult (hrResizeBuffers nv)
                 (call (ResizeBuffers (mWidth sz) (mHeight sz)) s1))
          (\<lambda>s2. andThen (CreateRenderTargets N nv (s2\<lparr>mSwapChain := resized nv sz\<rparr>))
             (\<lambda>s3. Returned (s3\<lparr>mWindowSize := sz, mPendingResize := None\<rparr>)))))"
      by (rule extends_andThen [OF a]) (rule b)
  qed
qed

lemma RenderFrame_body_reset:
  assumes "AllocatorReset j \<in> set (new_calls s (final (RenderFrame_body N nv s)))"
  shows "j = mFrameIndex s \<and> j < length (mFrames s) \<and>
     (\<exists>post. new_calls s (final (RenderFrame_body N nv s)) =
        wait_calls (frame_mFenceValue (mFrames s ! j)) @ AllocatorReset j # post \<and>
        list_all (\<lambda>c. reset_slot c = None) post)"
  using assms
  by (auto simp: RenderFrame_body_def wait_for_frame_def RenderNonSkiaContent_def
      RenderSkiaContent_def RenderSkiaContent_canvas_def Let_def wait_calls_def
      CheckHResult_def new_calls_def call_def split: if_splits option.splits)

lemma extends_RenderFrame_body: "extends (\<lambda>c. True) s (final (RenderFrame_body N nv s))"
  by (auto simp: RenderFrame_body_def wait_for_frame_def RenderNonSkiaContent_def
      RenderSkiaContent_def RenderSkiaContent_canvas_def Let_def
      CheckHResult_def new_calls_def extends_def call_def split: if_splits option.splits)

lemma setup_call_no_reset: "setup_call c \<Longrightarrow> reset_slot c = None"
  by (cases c) simp_all

lemma extends_weaken: "extends P s s' \<Longrightarrow> (\<And>c. P c \<Longrightarrow> Q c) \<Longrightarrow> extends Q s s'"
  by (auto simp: extends_def list_all_iff)

subsection \<open>The sample windows\<close>

lemma SUCCEEDED_S_OK [simp]: "SUCCEEDED S_OK"
  by (simp add: SUCCEEDED_def S_OK_def)

lemma not_SUCCEEDED_E_OUTOFMEMORY [simp]: "\<not> SUCCEEDED E_OUTOFMEMORY"
  by (simp add: SUCCEEDED_def E_OUTOFMEMORY_def)

lemma all_ok_ok_natives [simp]: "all_ok N ok_natives"
  by (simp add: all_ok_def ok_natives_def list_all_iff)

lemma wf_sample_window: "wf 2 sample_window"
  by (simp add: wf_def sample_window_def)

lemma wf_sample_reused: "wf 2 sample_reused"
  by (simp add: wf_def sample_reused_def)

lemma ctor_sample_window:
  "HelloSkiaWindow_ctor 2 ok_natives sample_size = Returned sample_window"
proof -
  have u: "[0..<2] = [0, 1]" by (simp add: upt_rec)
  have "CreateRenderTargets_from ok_natives [0, 1] (initial 2 sample_size) =
     Returned ((initial 2 sample_size)
       \<lparr>mFrames := created ok_natives (mSwapChain (initial 2 sample_size)) [0, 1]
                     (mFrames (initial 2 sample_size)),
        calls := calls (initial 2 sample_size) @
           concat (map (create_calls ok_natives (mSwapChain (initial 2 sample_size))) [0, 1])\<rparr>)"
    by (rule CreateRenderTargets_from_ok) (simp_all add: ok_natives_def)
  moreover have "rtvStart ok_natives = 4096" "rtvStep ok_natives = 32"
    by (simp_all add: ok_natives_def)
  moreover have "replicate 2 x = [x, x]" for x :: FrameContext
    by (simp add: numeral_2_eq_2)
  ultimately show ?thesis
    unfolding HelloSkiaWindow_ctor_def CreateRenderTargets_def u
    by (simp add: initial_def sample_window_def created_frame_def create_calls_def)
qed

lemma sample_window_reused:
  "RenderFrames 2 [ok_natives, ok_natives] sample_window = Returned sample_reused"
proof -
  have p: "mPendingResize sample_window = None" by (simp add: sample_window_def)
  have 1: "RenderFrame 2 ok_natives sample_window = Returned
     (sample_window\<lparr>mFrameCounter := 1, mFrameIndex := 1, mFenceValue := 2,
        mFrames := [\<lparr>mRenderTarget = Some 0, mRenderTargetView = 4096,
                   mSkSurface = Some sample_size, frame_mFenceValue = 2\<rparr>,
                 \<lparr>mRenderTarget = Some 1, mRenderTargetView = 4128,
                   mSkSurface = Some sample_size, frame_mFenceValue = 0\<rparr>],
        calls := calls sample_window @ frame_calls 0 1 2 sample_size 1\<rparr>)" (is "_ = Returned ?s1")
    unfolding RenderFrame_ok_no_resize [OF wf_sample_window p all_ok_ok_natives]
    by (simp add: sample_window_def wait_calls_def)
  have wf1: "wf 2 ?s1" by (simp add: wf_def sample_window_def)
  have p1: "mPendingResize ?s1 = None" by (simp add: sample_window_def)
  show ?thesis
    unfolding RenderFrames.simps 1 andThen.simps
      RenderFrame_ok_no_resize [OF wf1 p1 all_ok_ok_natives]
    by (simp add: sample_window_def sample_reused_def wait_calls_def numeral_2_eq_2)
qed

lemma sample_reused_frame:
  "RenderFrame 2 ok_natives sample_reused = Returned
     (sample_reused\<lparr>mFrameCounter := 3, mFrameIndex := 1, mFenceValue := 6,
        mFrames := [\<lparr>mRenderTarget = Some 0, mRenderTargetView = 4096,
                   mSkSurface = Some sample_size, frame_mFenceValue = 6\<rparr>,
                 \<lparr>mRenderTarget = Some 1, mRenderTargetView = 4128,
                   mSkSurface = Some sample_size, frame_mFenceValue = 4\<rparr>],
        calls := calls sample_reused @ [SetEventOnCompletion 2, WaitForSingleObject] @
                   frame_calls 0 5 6 sample_size 3\<rparr>)"
proof -
  have p: "mPendingResize sample_reused = None" by (simp add: sample_reused_def)
  show ?thesis
    unfolding RenderFrame_ok_no_resize [OF wf_sample_reused p all_ok_ok_natives]
    by (simp add: sample_reused_def wait_calls_def numeral_3_eq_3)
qed

subsection \<open>Frames in sequence\<close>

lemma visits_append [simp]: "visits (xs @ ys) = visits xs @ visits ys"
  by (simp add: visits_def map_filter_def)

lemma queue_signals_append [simp]: "queue_signals (xs @ ys) = queue_signals xs @ queue_signals ys"
  by (simp add: queue_signals_def)

lemma issued_append [simp]: "issued (xs @ ys) = issued xs @ issued ys"
  by (simp add: issued_def map_filter_def)

lemma wait_calls_quiet [simp]:
  "visits (wait_calls m) = []" "queue_signals (wait_calls m) = []" "issued (wait_calls m) = []"
  by (simp_all add: wait_calls_def visits_def queue_signals_def issued_def map_filter_def)

lemma frame_calls_read [simp]:
  "visits (frame_calls i m1 m2 ws fc) = [i]"
  "queue_signals (frame_calls i m1 m2 ws fc) = [Signal m1, SkFlush i m2]"
  "issued (frame_calls i m1 m2 ws fc) = [m1, m2]"
  by (simp_all add: frame_calls_def visits_def queue_signals_def issued_def map_filter_def)

lemma create_calls_quiet [simp]:
  "visits (concat (map (create_calls nv sz) is)) = []"
  "queue_signals (concat (map (create_calls nv sz) is)) = []"
  "issued (concat (map (create_calls nv sz) is)) = []"
  by (induction "is") (simp_all add: create_calls_def visits_def queue_signals_def issued_def map_filter_def)

lemma wf_frame:
  assumes "wf N s"
  shows "wf N (s\<lparr>mFrameCounter := fc, mFrameIndex := (mFrameIndex s + 1) mod N, mFenceValue := c,
                 mFrames := (mFrames s)[mFrameIndex s :=
                    (mFrames s ! mFrameIndex s)\<lparr>frame_mFenceValue := m\<rparr>],
                 calls := cs\<rparr>)"
  using assms by (auto simp: wf_def list_all_length nth_list_update)

lemma RenderFrames_ok:
  assumes "wf N s" "mPendingResize s = None" "list_all (all_ok N) nvs"
  shows "\<exists>s'. RenderFrames N nvs s = Returned s' \<and> wf N s' \<and> mPendingResize s' = None \<and>
     mFrameIndex s' = (mFrameIndex s + length nvs) mod N \<and>
     mFenceValue s' = mFenceValue s + word_of_nat (2 * length nvs) \<and>
     visits (calls s') = visits (calls s) @ map (\<lambda>k. (mFrameIndex s + k) mod N) [0..<length nvs] \<and>
     queue_signals (calls s') = queue_signals (calls s) @
        concat (map (frame_signals N (mFenceValue s) (mFrameIndex s)) [0..<length nvs])"
  using assms
proof (induction nvs arbitrary: s)
  case Nil
  then show ?case by (simp add: wf_def)
next
  case (Cons nv nvs)
  let ?i = "mFrameIndex s"
  let ?s1 = "s\<lparr>mFrameCounter := mFrameCounter s + 1,
                 mFrameIndex := (mFrameIndex s + 1) mod N,
                 mFenceValue := mFenceValue s + 2,
                 mFrames := (mFrames s)[mFrameIndex s :=
                    (mFrames s ! mFrameIndex s)\<lparr>frame_mFenceValue := mFenceValue s + 2\<rparr>],
                 calls := calls s @ wait_calls (frame_mFenceValue (mFrames s ! mFrameIndex s)) @
                    frame_calls (mFrameIndex s) (mFenceValue s + 1) (mFenceValue s + 2)
                      (mWindowSize s) (mFrameCounter s + 1)\<rparr>"
  have i: "?i < N" using Cons.prems(1) by (simp add: wf_def)
  have step: "RenderFrame N nv s = Returned ?s1"
    using Cons.prems by (simp add: RenderFrame_ok_no_resize)
  have wf1: "wf N ?s1" by (rule wf_frame [OF Cons.prems(1)])
  have p1: "mPendingResize ?s1 = None" using Cons.prems(2) by simp
  from Cons.IH [OF wf1 p1] Cons.prems(3)
  obtain s' where s': "RenderFrames N nvs ?s1 = Returned s'" "wf N s'" "mPendingResize s' = None"
    "mFrameIndex s' = (mFrameIndex ?s1 + length nvs) mod N"
    "mFenceValue s' = mFenceValue ?s1 + word_of_nat (2 * length nvs)"
    "visits (calls s') = visits (calls ?s1) @ map (\<lambda>k. (mFrameIndex ?s1 + k) mod N) [0..<length nvs]"
    "queue_signals (calls s') = queue_signals (calls ?s1) @
        concat (map (frame_signals N (mFenceValue ?s1) (mFrameIndex ?s1)) [0..<length nvs])"
    by auto
  have shift: "((?i + 1) mod N + k) mod N = (?i + Suc k) mod N" for k
    by (simp add: mod_add_left_eq)
  have shift': "(Suc ?i mod N + k) mod N = Suc (?i + k) mod N" for k
    using shift [of k] by simp
  have sig: "frame_signals N (mFenceValue s + 2) ((?i + 1) mod N) k =
             frame_signals N (mFenceValue s) ?i (Suc k)" for k
    using shift [of k] by (simp add: frame_signals_def)
  have "RenderFrames N (nv # nvs) s = Returned s'"
    unfolding RenderFrames.simps step andThen.simps by (rule s'(1))
  moreover have "mFrameIndex s' = (?i + length (nv # nvs)) mod N"
    using s'(4) shift [of "length nvs"] by simp
  moreover have "mFenceValue s' = mFenceValue s + word_of_nat (2 * length (nv # nvs))"
    using s'(5) by simp
  moreover have "visits (calls s') = visits (calls s) @
       map (\<lambda>k. (?i + k) mod N) [0..<length (nv # nvs)]"
    using s'(6) i by (simp add: map_upt_Suc shift' del: upt_Suc)
  moreover have "queue_signals (calls s') = queue_signals (calls s) @
        concat (map (frame_signals N (mFenceValue s) ?i) [0..<length (nv # nvs)])"
  proof -
    have head: "queue_signals (calls ?s1) =
        queue_signals (calls s) @ frame_signals N (mFenceValue s) ?i 0"
      using i by (simp add: frame_signals_def)
    have tail: "map (frame_signals N (mFenceValue ?s1) (mFrameIndex ?s1)) [0..<length nvs] =
        map (\<lambda>k. frame_signals N (mFenceValue s) ?i (Suc k)) [0..<length nvs]"
      using sig by simp
    have "concat (map f [0..<Suc n]) = f 0 @ concat (map (\<lambda>k. f (Suc k)) [0..<n])"
      for f :: "nat \<Rightarrow> call list" and n
      by (simp add: map_upt_Suc del: upt_Suc)
    then show ?thesis
      unfolding s'(7) head tail by simp
  qed
  ultimately show ?case using s'(2,3) by blast
qed

lemma HelloSkiaWindow_ctor_ok:
  assumes "0 < N" "all_ok N nv"
  shows "\<exists>s0. HelloSkiaWindow_ctor N nv sz = Returned s0 \<and> wf N s0 \<and> mPendingResize s0 = None \<and>
     mFrameIndex s0 = 0 \<and> mFenceValue s0 = 0 \<and> visits (calls s0) = [] \<and>
     queue_signals (calls s0) = []"
proof -
  have ok: "list_all (\<lambda>i. SUCCEEDED (hrGetBuffer nv i)) [0..<N]" "SUCCEEDED (hrGetDesc1 nv)"
    using assms(2) by (simp_all add: all_ok_def)
  have "list_all (\<lambda>f. mSkSurface f \<noteq> None) (created nv sz [0..<N] (mFrames (initial N sz)))"
    by (simp add: list_all_length wf_created_surface initial_def)
  then show ?thesis
    unfolding HelloSkiaWindow_ctor_def CreateRenderTargets_def CreateRenderTargets_from_ok [OF ok]
    using assms(1)
    by (simp add: wf_def) (simp add: initial_def visits_def queue_signals_def map_filter_def)
qed

lemma issued_queue_signals: "issued cs = List.map_filter signalled (queue_signals cs)"
  by (induction cs) (auto simp: issued_def queue_signals_def map_filter_def)

text \<open>
  C3. From any well-formed window with no resize pending, successive frames that all
  succeed visit the slots in round-robin order with period \<open>N\<close>, continuing from the
  ring index; and the constructor leaves the ring index at slot 0 with no slot
  visited yet.
\<close>

theorem round_robin_visits:
  assumes "2 \<le> N" "wf N s" "mPendingResize s = None" "list_all (all_ok N) nvs" "all_ok N nv0"
  shows "(\<exists>s'. RenderFrames N nvs s = Returned s' \<and>
            visits (calls s') =
              visits (calls s) @ map (\<lambda>k. (mFrameIndex s + k) mod N) [0..<length nvs]) \<and>
         (\<exists>s0. HelloSkiaWindow_ctor N nv0 sz = Returned s0 \<and> wf N s0 \<and>
            mPendingResize s0 = None \<and> mFrameIndex s0 = 0 \<and> visits (calls s0) = [])"
proof
  from RenderFrames_ok [OF assms(2,3,4)]
  show "\<exists>s'. RenderFrames N nvs s = Returned s' \<and>
            visits (calls s') =
              visits (calls s) @ map (\<lambda>k. (mFrameIndex s + k) mod N) [0..<length nvs]"
    by blast
next
  have "0 < N" using assms(1) by simp
  from HelloSkiaWindow_ctor_ok [OF this assms(5)]
  show "\<exists>s0. HelloSkiaWindow_ctor N nv0 sz = Returned s0 \<and> wf N s0 \<and>
            mPendingResize s0 = None \<and> mFrameIndex s0 = 0 \<and> visits (calls s0) = []"
    by blast
qed

theorem round_robin_visits_witness:
  "(2::nat) \<le> 2 \<and> wf 2 sample_window \<and> mPendingResize sample_window = None \<and>
   list_all (all_ok 2) (replicate 5 ok_natives) \<and> all_ok 2 ok_natives \<and>
   (\<exists>s'. RenderFrames 2 (replicate 5 ok_natives) sample_window = Returned s' \<and>
      visits (calls s') = [0, 1, 0, 1, 0]) \<and>
   HelloSkiaWindow_ctor 2 ok_natives sample_size = Returned sample_window"
proof -
  have h: "(2::nat) \<le> 2" "wf 2 sample_window" "mPendingResize sample_window = None"
    "list_all (all_ok 2) (replicate 5 ok_natives)" "all_ok 2 ok_natives"
    by (simp_all add: wf_sample_window list_all_iff) (simp add: sample_window_def)
  have v: "visits (calls sample_window) = []"
    by (simp add: sample_window_def visits_def create_calls_def map_filter_def)
  have m: "map (\<lambda>k. (mFrameIndex sample_window + k) mod 2) [0..<length (replicate 5 ok_natives)] =
      [0, 1, 0, 1, 0]"
    by (simp add: sample_window_def upt_rec)
  from round_robin_visits [OF h, of sample_size] h ctor_sample_window
  show ?thesis unfolding v m by simp
qed

text \<open>
  C4. A window constructed with a ring of two and then asked for five frames, every
  call succeeding and no resize pending, signals the queue ten times, twice per frame
  (the program's own signal, then the one that Skia's flush carries), with the markers
  1 to 10 in this order, and resets the allocators of slots 0, 1, 0, 1, 0.
\<close>

theorem five_frames_ring_of_two:
  assumes "all_ok 2 nv0" "list_all (all_ok 2) nvs" "length nvs = 5"
  shows "\<exists>s0 s'. HelloSkiaWindow_ctor 2 nv0 sz = Returned s0 \<and>
     RenderFrames 2 nvs s0 = Returned s' \<and>
     queue_signals (calls s') =
       [Signal 1, SkFlush 0 2, Signal 3, SkFlush 1 4, Signal 5, SkFlush 0 6,
        Signal 7, SkFlush 1 8, Signal 9, SkFlush 0 10] \<and>
     issued (calls s') = [1, 2, 3, 4, 5, 6, 7, 8, 9, 10] \<and>
     sorted_wrt (<) (issued (calls s')) \<and>
     visits (calls s') = [0, 1, 0, 1, 0]"
proof -
  from HelloSkiaWindow_ctor_ok [OF _ assms(1), of sz]
  obtain s0 where s0: "HelloSkiaWindow_ctor 2 nv0 sz = Returned s0" "wf 2 s0"
    "mPendingResize s0 = None" "mFrameIndex s0 = 0" "mFenceValue s0 = 0"
    "visits (calls s0) = []" "queue_signals (calls s0) = []"
    by auto
  from RenderFrames_ok [OF s0(2,3) assms(2)]
  obtain s' where s': "RenderFrames 2 nvs s0 = Returned s'"
    "visits (calls s') = visits (calls s0) @ map (\<lambda>k. (mFrameIndex s0 + k) mod 2) [0..<length nvs]"
    "queue_signals (calls s') = queue_signals (calls s0) @
        concat (map (frame_signals 2 (mFenceValue s0) (mFrameIndex s0)) [0..<length nvs])"
    by auto
  have u: "[0..<5] = [0, 1, 2, 3, 4]" by (simp add: upt_rec)
  have q: "queue_signals (calls s') =
       [Signal 1, SkFlush 0 2, Signal 3, SkFlush 1 4, Signal 5, SkFlush 0 6,
        Signal 7, SkFlush 1 8, Signal 9, SkFlush 0 10]"
    unfolding s'(3) s0 assms(3) u by (simp add: frame_signals_def)
  have v: "visits (calls s') = [0, 1, 0, 1, 0]"
    unfolding s'(2) s0 assms(3) u by simp
  have i: "issued (calls s') = [1, 2, 3, 4, 5, 6, 7, 8, 9, 10]"
    unfolding issued_queue_signals q by (simp add: map_filter_def)
  have "sorted_wrt (<) (issued (calls s'))"
    unfolding i by simp
  with s0(1) s'(1) q v i show ?thesis by blast
qed

theorem five_frames_ring_of_two_witness:
  "all_ok 2 ok_natives \<and> list_all (all_ok 2) (replicate 5 ok_natives) \<and>
   length (replicate 5 ok_natives) = 5 \<and>
   (\<exists>s'. RenderFrames 2 (replicate 5 ok_natives) sample_window = Returned s' \<and>
     length (queue_signals (calls s')) = 10 \<and>
     issued (calls s') = [1, 2, 3, 4, 5, 6, 7, 8, 9, 10] \<and>
     visits (calls s') = [0, 1, 0, 1, 0])"
proof -
  have h: "all_ok 2 ok_natives" "list_all (all_ok 2) (replicate 5 ok_natives)"
    "length (replicate 5 ok_natives) = 5"
    by (simp_all add: list_all_iff)
  from five_frames_ring_of_two [OF h, of sample_size] h
  show ?thesis unfolding ctor_sample_window by auto
qed

subsection \<open>The two submissions of a frame\<close>

lemma RenderFrame_body_SkWait:
  assumes "SkWait m \<in> set (new_calls s (final (RenderFrame_body N nv s)))"
  shows "\<exists>post. new_calls s (final (RenderFrame_body N nv s)) =
        (wait_calls (frame_mFenceValue (mFrames s ! mFrameIndex s)) @
         [AllocatorReset (mFrameIndex s), CommandListReset (mFrameIndex s),
          ResourceBarrier (mFrameIndex s), ClearRenderTargetView (mFrameIndex s),
          OMSetRenderTargets (mFrameIndex s), SetDescriptorHeaps, Close]) @
        [ExecuteCommandLists, Signal m, SkWait m] @ post \<and>
        list_all (\<lambda>c. \<not> cpu_blocking c) post"
  using assms
  by (auto simp: RenderFrame_body_def wait_for_frame_def RenderNonSkiaContent_def
      RenderSkiaContent_def RenderSkiaContent_canvas_def Let_def wait_calls_def
      CheckHResult_def new_calls_def call_def split: if_splits option.splits)

lemma setup_call_no_SkWait: "setup_call c \<Longrightarrow> c \<noteq> SkWait m"
  by (cases c) simp_all

text \<open>
  C5. In every call of \<open>RenderFrame\<close> that reaches the library, the library's context
  is told to wait on the marker that the program signalled on the queue in the call
  directly before, itself directly after the command list was handed to the queue;
  from there to the end of the call the CPU makes no blocking call. When the call
  returns, its log ends with the submission of the command list, that signal, that
  wait, the library's drawing, its flush carrying the next marker, its submit without
  CPU synchronisation, and the present.
\<close>

theorem library_waits_on_gpu_not_cpu:
  "(SkWait m \<in> set (new_calls s (final (RenderFrame N nv s))) \<longrightarrow>
      (\<exists>pre post. new_calls s (final (RenderFrame N nv s)) =
          pre @ [ExecuteCommandLists, Signal m, SkWait m] @ post \<and>
          list_all (\<lambda>c. \<not> cpu_blocking c) post)) \<and>
   (\<forall>s'. RenderFrame N nv s = Returned s' \<longrightarrow>
      (\<exists>pre i ws fc. new_calls s s' =
          pre @ [ExecuteCommandLists, Signal (mFenceValue s' - 1), SkWait (mFenceValue s' - 1),
                 SetD3DResourceState i, DrawRoundRect i ws, DrawString i fc,
                 SkFlush i (mFenceValue s'), SkSubmit False, Present]))"
proof (intro conjI impI allI)
  assume a: "SkWait m \<in> set (new_calls s (final (RenderFrame N nv s)))"
  have ext: "extends setup_call s (final (RenderFrame_resize N nv s))"
    by (rule extends_RenderFrame_resize)
  then have quiet: "SkWait m \<notin> set (new_calls s (final (RenderFrame_resize N nv s)))"
    using setup_call_no_SkWait by (auto simp: extends_def list_all_iff)
  show "\<exists>pre post. new_calls s (final (RenderFrame N nv s)) =
          pre @ [ExecuteCommandLists, Signal m, SkWait m] @ post \<and>
          list_all (\<lambda>c. \<not> cpu_blocking c) post"
  proof (cases "RenderFrame_resize N nv s")
    case (Returned s1)
    have ext1: "extends setup_call s s1"
      using ext Returned by simp
    have split: "new_calls s (final (RenderFrame_body N nv s1)) =
        new_calls s s1 @ new_calls s1 (final (RenderFrame_body N nv s1))"
      by (rule new_calls_trans [OF ext1 extends_RenderFrame_body])
    have "SkWait m \<in> set (new_calls s1 (final (RenderFrame_body N nv s1)))"
      using a quiet Returned split by (auto simp: RenderFrame_def)
    from RenderFrame_body_SkWait [OF this]
    obtain post where "new_calls s1 (final (RenderFrame_body N nv s1)) =
        (wait_calls (frame_mFenceValue (mFrames s1 ! mFrameIndex s1)) @
         [AllocatorReset (mFrameIndex s1), CommandListReset (mFrameIndex s1),
          ResourceBarrier (mFrameIndex s1), ClearRenderTargetView (mFrameIndex s1),
          OMSetRenderTargets (mFrameIndex s1), SetDescriptorHeaps, Close]) @
        [ExecuteCommandLists, Signal m, SkWait m] @ post"
      "list_all (\<lambda>c. \<not> cpu_blocking c) post"
      by blast
    then have "new_calls s (final (RenderFrame N nv s)) =
        (new_calls s s1 @ wait_calls (frame_mFenceValue (mFrames s1 ! mFrameIndex s1)) @
         [AllocatorReset (mFrameIndex s1), CommandListReset (mFrameIndex s1),
          ResourceBarrier (mFrameIndex s1), ClearRenderTargetView (mFrameIndex s1),
          OMSetRenderTargets (mFrameIndex s1), SetDescriptorHeaps, Close]) @
        [ExecuteCommandLists, Signal m, SkWait m] @ post"
      using split Returned by (simp add: RenderFrame_def)
    with \<open>list_all (\<lambda>c. \<not> cpu_blocking c) post\<close> show ?thesis by blast
  next
    case (Raised e s1)
    with a quiet show ?thesis by (simp add: RenderFrame_def)
  qed
next
  fix s'
  assume r: "RenderFrame N nv s = Returned s'"
  then obtain s1 where s1: "RenderFrame_resize N nv s = Returned s1"
    "RenderFrame_body N nv s1 = Returned s'"
    by (cases "RenderFrame_resize N nv s") (simp_all add: RenderFrame_def)
  have ext1: "extends setup_call s s1"
    using extends_RenderFrame_resize [of s N nv] s1(1) by simp
  have split: "new_calls s s' = new_calls s s1 @ new_calls s1 s'"
    using new_calls_trans [OF ext1 extends_RenderFrame_body, of N nv] s1(2) by simp
  have "\<exists>pre i ws fc. new_calls s1 s' =
          pre @ [ExecuteCommandLists, Signal (mFenceValue s' - 1), SkWait (mFenceValue s' - 1),
                 SetD3DResourceState i, DrawRoundRect i ws, DrawString i fc,
                 SkFlush i (mFenceValue s'), SkSubmit False, Present]"
    using s1(2)
    by (auto simp: RenderFrame_body_def wait_for_frame_def RenderNonSkiaContent_def
      RenderSkiaContent_def RenderSkiaContent_canvas_def Let_def
      CheckHResult_def new_calls_def call_def split: if_splits option.splits)
  then show "\<exists>pre i ws fc. new_calls s s' =
          pre @ [ExecuteCommandLists, Signal (mFenceValue s' - 1), SkWait (mFenceValue s' - 1),
                 SetD3DResourceState i, DrawRoundRect i ws, DrawString i fc,
                 SkFlush i (mFenceValue s'), SkSubmit False, Present]"
    unfolding split by (metis append.assoc)
qed

theorem library_waits_on_gpu_not_cpu_witness:
  "SkWait 5 \<in> set (new_calls sample_reused (final (RenderFrame 2 ok_natives sample_reused))) \<and>
   (\<exists>pre post. new_calls sample_reused (final (RenderFrame 2 ok_natives sample_reused)) =
          pre @ [ExecuteCommandLists, Signal 5, SkWait 5] @ post \<and>
          list_all (\<lambda>c. \<not> cpu_blocking c) post) \<and>
   (\<exists>s'. RenderFrame 2 ok_natives sample_reused = Returned s' \<and> mFenceValue s' = 6 \<and>
      (\<exists>pre i ws fc. new_calls sample_reused s' =
          pre @ [ExecuteCommandLists, Signal (mFenceValue s' - 1), SkWait (mFenceValue s' - 1),
                 SetD3DResourceState i, DrawRoundRect i ws, DrawString i fc,
                 SkFlush i (mFenceValue s'), SkSubmit False, Present]))"
proof -
  have h1: "SkWait 5 \<in> set (new_calls sample_reused (final (RenderFrame 2 ok_natives sample_reused)))"
    by (simp add: sample_reused_frame new_calls_def frame_calls_def)
  obtain s' where h2: "RenderFrame 2 ok_natives sample_reused = Returned s'" "mFenceValue s' = 6"
    by (simp add: sample_reused_frame)
  from library_waits_on_gpu_not_cpu [of 5 sample_reused 2 ok_natives] h1 h2
  show ?thesis by blast
qed

subsection \<open>A frame that applies a pending resize\<close>

lemma release_calls_held:
  assumes "length fs = N" "list_all (\<lambda>f. mSkSurface f \<noteq> None) fs"
    "list_all (\<lambda>f. mRenderTarget f \<noteq> None) fs"
  shows "all_release_calls fs = concat (map (\<lambda>i. [ReleaseSurface i, ReleaseRenderTarget i]) [0..<N])"
proof -
  have "map (\<lambda>(i, f). release_calls i f) (enumerate 0 fs) =
        map (\<lambda>i. [ReleaseSurface i, ReleaseRenderTarget i]) [0..<N]"
  proof (rule nth_equalityI)
    show "length (map (\<lambda>(i, f). release_calls i f) (enumerate 0 fs)) =
        length (map (\<lambda>i. [ReleaseSurface i, ReleaseRenderTarget i]) [0..<N])"
      using assms(1) by simp
  next
    fix i assume "i < length (map (\<lambda>(i, f). release_calls i f) (enumerate 0 fs))"
    then have i: "i < N" using assms(1) by simp
    then have "mSkSurface (fs ! i) \<noteq> None" "mRenderTarget (fs ! i) \<noteq> None"
      using assms by (simp_all add: list_all_length)
    then show "map (\<lambda>(i, f). release_calls i f) (enumerate 0 fs) ! i =
        map (\<lambda>i. [ReleaseSurface i, ReleaseRenderTarget i]) [0..<N] ! i"
      using i assms(1) by (simp add: nth_enumerate_eq release_calls_def)
  qed
  then show ?thesis by (simp add: all_release_calls_def)
qed

text \<open>
  C6. With a resize pending, every slot holding its surface and render target, and
  every call succeeding, \<open>RenderFrame\<close> returns, and what it logged is, in this
  order: the quiescence (Skia flushed and submitted with CPU synchronisation, a new
  marker signalled on the queue behind all earlier work, the wait for it), the release
  of the surface and of the render target of each of the \<open>N\<close> slots,
  \<open>ResizeBuffers\<close> with the pending extents, the creation of a render target and a
  surface for each of the \<open>N\<close> buffers at the swap chain's new size (the pending
  size, with the client area's extent where a pending extent is zero), and only then
  the calls of the frame, on slot 0. Afterwards no resize is pending, the window size
  is the pending one, and every slot holds its buffer and a surface of the new size.
\<close>

theorem pending_resize_applied_before_frame:
  assumes "wf N s" "list_all (\<lambda>f. mRenderTarget f \<noteq> None) (mFrames s)"
    "mPendingResize s = Some sz" "all_ok N nv"
  shows "\<exists>s'. RenderFrame N nv s = Returned s' \<and>
     new_calls s s' =
       [SkFlushAndSubmit True, Signal (mFenceValue s + 1),
        SetEventOnCompletion (mFenceValue s + 1), WaitForSingleObject] @
       concat (map (\<lambda>i. [ReleaseSurface i, ReleaseRenderTarget i]) [0..<N]) @
       [ResizeBuffers (mWidth sz) (mHeight sz)] @
       concat (map (create_calls nv (resized nv sz)) [0..<N]) @
       frame_calls 0 (mFenceValue s + 2) (mFenceValue s + 3) sz (mFrameCounter s + 1) \<and>
     resized nv sz =
       \<lparr>mWidth = (if mWidth sz = 0 then mWidth (clientArea nv) else mWidth sz),
        mHeight = (if mHeight sz = 0 then mHeight (clientArea nv) else mHeight sz)\<rparr> \<and>
     mPendingResize s' = None \<and> mWindowSize s' = sz \<and> mSwapChain s' = resized nv sz \<and>
     length (mFrames s') = N \<and>
     list_all (\<lambda>f. mSkSurface f = Some (resized nv sz)) (mFrames s') \<and>
     map mRenderTarget (mFrames s') = map Some [0..<N]"
proof -
  let ?fs = "created nv (resized nv sz) [0..<N] (map release_frame (mFrames s))"
  have N: "0 < N" "length (mFrames s) = N" "list_all (\<lambda>f. mSkSurface f \<noteq> None) (mFrames s)"
    using assms(1) by (simp_all add: wf_def)
  have rel: "all_release_calls (mFrames s) =
     concat (map (\<lambda>i. [ReleaseSurface i, ReleaseRenderTarget i]) [0..<N])"
    by (rule release_calls_held [OF N(2,3) assms(2)])
  have len: "length ?fs = N" using N by simp
  have nth: "?fs ! j = created_frame nv (resized nv sz) j (release_frame (mFrames s ! j))"
    if "j < N" for j
    using that N by (simp add: nth_created)
  have surf: "list_all (\<lambda>f. mSkSurface f = Some (resized nv sz))
     (?fs[0 := (?fs ! 0)\<lparr>frame_mFenceValue := mFenceValue s + 3\<rparr>])"
    using N len by (auto simp: list_all_length nth_list_update nth created_frame_def)
  have rt: "map mRenderTarget (?fs[0 := (?fs ! 0)\<lparr>frame_mFenceValue := mFenceValue s + 3\<rparr>]) =
     map Some [0..<N]"
    using N len by (auto simp: list_eq_iff_nth_eq nth_list_update nth created_frame_def)
  show ?thesis
    unfolding RenderFrame_ok_resize [OF assms(1,3,4)] rel
    using surf rt len by (simp add: new_calls_def quiesce_calls_def resized_def)
qed

theorem pending_resize_applied_before_frame_witness:
  "wf 2 (sample_reused\<lparr>mPendingResize := Some \<lparr>mWidth = 640, mHeight = 480\<rparr>\<rparr>) \<and>
   list_all (\<lambda>f. mRenderTarget f \<noteq> None)
     (mFrames (sample_reused\<lparr>mPendingResize := Some \<lparr>mWidth = 640, mHeight = 480\<rparr>\<rparr>)) \<and>
   mPendingResize (sample_reused\<lparr>mPendingResize := Some \<lparr>mWidth = 640, mHeight = 480\<rparr>\<rparr>) =
     Some \<lparr>mWidth = 640, mHeight = 480\<rparr> \<and>
   all_ok 2 ok_natives \<and>
   (\<exists>s'. RenderFrame 2 ok_natives (sample_reused\<lparr>mPendingResize := Some \<lparr>mWidth = 640, mHeight = 480\<rparr>\<rparr>) =
           Returned s' \<and>
      take 9 (new_calls (sample_reused\<lparr>mPendingResize := Some \<lparr>mWidth = 640, mHeight = 480\<rparr>\<rparr>) s') =
        [SkFlushAndSubmit True, Signal 5, SetEventOnCompletion 5, WaitForSingleObject,
         ReleaseSurface 0, ReleaseRenderTarget 0, ReleaseSurface 1, ReleaseRenderTarget 1,
         ResizeBuffers 640 480] \<and>
      mPendingResize s' = None \<and> mWindowSize s' = \<lparr>mWidth = 640, mHeight = 480\<rparr> \<and>
      map mSkSurface (mFrames s') =
        [Some \<lparr>mWidth = 640, mHeight = 480\<rparr>, Some \<lparr>mWidth = 640, mHeight = 480\<rparr>] \<and>
      map frame_mFenceValue (mFrames s') = [7, 0])"
proof -
  let ?s = "sample_reused\<lparr>mPendingResize := Some \<lparr>mWidth = 640, mHeight = 480\<rparr>\<rparr>"
  have h: "wf 2 ?s" "list_all (\<lambda>f. mRenderTarget f \<noteq> None) (mFrames ?s)"
    "mPendingResize ?s = Some \<lparr>mWidth = 640, mHeight = 480\<rparr>" "all_ok 2 ok_natives"
    using wf_sample_reused by (simp_all add: wf_def) (simp add: sample_reused_def)
  have u: "[0..<2] = [0, 1]" by (simp add: upt_rec)
  have r: "resized ok_natives \<lparr>mWidth = 640, mHeight = 480\<rparr> = \<lparr>mWidth = 640, mHeight = 480\<rparr>"
    by (simp add: resized_def)
  from pending_resize_applied_before_frame [OF h]
  obtain s' where s': "RenderFrame 2 ok_natives ?s = Returned s'" "mPendingResize s' = None"
    "mWindowSize s' = \<lparr>mWidth = 640, mHeight = 480\<rparr>"
    and n: "new_calls ?s s' =
       [SkFlushAndSubmit True, Signal (mFenceValue ?s + 1),
        SetEventOnCompletion (mFenceValue ?s + 1), WaitForSingleObject] @
       concat (map (\<lambda>i. [ReleaseSurface i, ReleaseRenderTarget i]) [0..<2]) @
       [ResizeBuffers (mWidth \<lparr>mWidth = 640, mHeight = 480\<rparr>) (mHeight \<lparr>mWidth = 640, mHeight = 480\<rparr>)] @
       concat (map (create_calls ok_natives (resized ok_natives \<lparr>mWidth = 640, mHeight = 480\<rparr>)) [0..<2]) @
       frame_calls 0 (mFenceValue ?s + 2) (mFenceValue ?s + 3) \<lparr>mWidth = 640, mHeight = 480\<rparr>
         (mFrameCounter ?s + 1)"
    by blast
  have t: "take 9 (new_calls ?s s') =
        [SkFlushAndSubmit True, Signal 5, SetEventOnCompletion 5, WaitForSingleObject,
         ReleaseSurface 0, ReleaseRenderTarget 0, ReleaseSurface 1, ReleaseRenderTarget 1,
         ResizeBuffers 640 480]"
    unfolding n u by (simp add: sample_reused_def)
  have f: "map mSkSurface (mFrames s') =
        [Some \<lparr>mWidth = 640, mHeight = 480\<rparr>, Some \<lparr>mWidth = 640, mHeight = 480\<rparr>]"
      "map frame_mFenceValue (mFrames s') = [7, 0]"
    using s'(1) unfolding RenderFrame_ok_resize [OF h(1,3,4)] u r
    by (auto simp: sample_reused_def created_frame_def release_frame_def)
  show ?thesis
    by (intro conjI exI [of _ s']) (fact h s' t f)+
qed

subsection \<open>Messages\<close>

lemma WM_distinct [simp]:
  "WM_SIZE \<noteq> WM_CLOSE" "WM_SIZE \<noteq> WM_QUIT" "WM_CLOSE \<noteq> WM_QUIT"
  "WM_CLOSE \<noteq> WM_SIZE" "WM_QUIT \<noteq> WM_SIZE" "WM_QUIT \<noteq> WM_CLOSE"
  by (simp_all add: WM_SIZE_def WM_CLOSE_def WM_QUIT_def)

lemma WindowProc_shape:
  "WindowProc u wp lp s = s\<lparr>mPendingResize := mPendingResize (WindowProc u wp lp s),
                             mExitCode := mExitCode (WindowProc u wp lp s)\<rparr>"
  by (simp add: WindowProc_def)

lemma pump_shape:
  "fst (pump ms s) = s\<lparr>mPendingResize := mPendingResize (fst (pump ms s)),
                        mExitCode := mExitCode (fst (pump ms s))\<rparr>"
proof (induction ms arbitrary: s)
  case Nil
  show ?case by simp
next
  case (Cons m ms)
  show ?case
  proof (cases "message m = WM_QUIT")
    case True
    then show ?thesis by (simp add: Let_def WindowProc_def)
  next
    case False
    then show ?thesis
      using Cons.IH [of "WindowProc (message m) (wParam m) (lParam m) s"]
      by (simp add: Let_def) (metis (no_types, lifting) HelloSkiaWindow.surjective
          HelloSkiaWindow.update_convs(1,3) WindowProc_shape)
  qed
qed

lemma pump_no_quit:
  "list_all (\<lambda>m. message m \<noteq> WM_QUIT) ms \<Longrightarrow> snd (pump ms s) = False"
  by (induction ms arbitrary: s) (simp_all add: Let_def)

lemma pump_pending:
  "list_all (\<lambda>m. message m \<noteq> WM_QUIT) ms \<Longrightarrow>
     mPendingResize (fst (pump ms s)) = pending_after ms (mPendingResize s)"
  by (induction ms arbitrary: s) (simp_all add: Let_def WindowProc_def size_of_def)

lemma pending_after_append:
  "pending_after (xs @ ys) p = pending_after ys (pending_after xs p)"
  by (induction xs arbitrary: p) simp_all

lemma pending_after_none:
  "list_all (\<lambda>m. message m \<noteq> WM_SIZE) ms \<Longrightarrow> pending_after ms p = p"
  by (induction ms arbitrary: p) simp_all

lemma pending_after_last:
  assumes "message m = WM_SIZE" "list_all (\<lambda>x. message x \<noteq> WM_SIZE) post"
  shows "pending_after (pre @ m # post) p = Some (size_of m)"
  using assms by (simp add: pending_after_append pending_after_none)




lemma wf_pump: "wf N (fst (pump ms s)) = wf N s"
  by (subst pump_shape) (simp add: wf_def)

lemma pump_fields:
  "calls (fst (pump ms s)) = calls s"
  "mFenceValue (fst (pump ms s)) = mFenceValue s"
  "mFrameCounter (fst (pump ms s)) = mFrameCounter s"
  "mFrames (fst (pump ms s)) = mFrames s"
  by (subst pump_shape, simp)+

subsection \<open>What a successful frame leaves behind\<close>

lemma RenderFrame_resize_summary:
  assumes "wf N s" "mPendingResize s = Some sz" "all_ok N nv"
  shows "\<exists>s'. RenderFrame N nv s = Returned s' \<and> wf N s' \<and>
     calls s' = calls s @ quiesce_calls (mFenceValue s + 1) @ all_release_calls (mFrames s) @
       [ResizeBuffers (mWidth sz) (mHeight sz)] @
       concat (map (create_calls nv (resized nv sz)) [0..<N]) @
       frame_calls 0 (mFenceValue s + 2) (mFenceValue s + 3) sz (mFrameCounter s + 1) \<and>
     mPendingResize s' = None \<and> mWindowSize s' = sz \<and> mExitCode s' = mExitCode s \<and>
     mFrameCounter s' = mFrameCounter s + 1 \<and> mFrameIndex s' = 1 mod N \<and>
     (\<forall>j. 0 < j \<and> j < N \<longrightarrow> frame_mFenceValue (mFrames s' ! j) = 0)"
proof -
  let ?fs = "created nv (resized nv sz) [0..<N] (map release_frame (mFrames s))"
  have N: "0 < N" "length (mFrames s) = N"
    using assms(1) by (simp_all add: wf_def)
  have len: "length ?fs = N" using N by simp
  have nth: "?fs ! j = created_frame nv (resized nv sz) j (release_frame (mFrames s ! j))"
    if "j < N" for j
    using that N by (simp add: nth_created)
  have surf: "list_all (\<lambda>f. mSkSurface f \<noteq> None)
     (?fs[0 := (?fs ! 0)\<lparr>frame_mFenceValue := mFenceValue s + 3\<rparr>])"
    using N len by (auto simp: list_all_length nth_list_update nth created_frame_def)
  have zero: "frame_mFenceValue ((?fs[0 := (?fs ! 0)\<lparr>frame_mFenceValue := mFenceValue s + 3\<rparr>]) ! j) = 0"
    if "0 < j" "j < N" for j
    using that N len by (simp add: nth created_frame_def release_frame_def)
  show ?thesis
    unfolding RenderFrame_ok_resize [OF assms]
    using surf zero len N by (simp add: wf_def)
qed

lemma RenderFrame_no_resize_summary:
  assumes "wf N s" "mPendingResize s = None" "all_ok N nv"
  shows "\<exists>s'. RenderFrame N nv s = Returned s' \<and> wf N s' \<and>
     calls s' = calls s @ wait_calls (frame_mFenceValue (mFrames s ! mFrameIndex s)) @
        frame_calls (mFrameIndex s) (mFenceValue s + 1) (mFenceValue s + 2)
          (mWindowSize s) (mFrameCounter s + 1) \<and>
     mPendingResize s' = None \<and> mWindowSize s' = mWindowSize s \<and> mExitCode s' = mExitCode s \<and>
     mFrameCounter s' = mFrameCounter s + 1 \<and> mFrameIndex s' = (mFrameIndex s + 1) mod N \<and>
     (\<forall>j. j \<noteq> mFrameIndex s \<longrightarrow> mFrames s' ! j = mFrames s ! j)"
  unfolding RenderFrame_ok_no_resize [OF assms]
  using wf_frame [OF assms(1)] assms(2) by simp

lemma RenderFrame_returns:
  assumes "wf N s" "all_ok N nv"
  shows "\<exists>s'. RenderFrame N nv s = Returned s' \<and> wf N s' \<and> mExitCode s' = mExitCode s \<and>
     mFrameCounter s' = mFrameCounter s + 1"
proof (cases "mPendingResize s")
  case None
  from RenderFrame_no_resize_summary [OF assms(1) None assms(2)] show ?thesis by blast
next
  case (Some sz)
  from RenderFrame_resize_summary [OF assms(1) Some assms(2)] show ?thesis by blast
qed

lemma resize_call_filters [simp]:
  "filter resize_call (quiesce_calls m) = []"
  "filter resize_call (all_release_calls fs) = []"
  "filter resize_call (concat (map (create_calls nv sz) is)) = []"
  "filter resize_call (frame_calls i m1 m2 ws fc) = []"
  "filter resize_call (wait_calls m) = []"
  by (simp_all add: quiesce_calls_def all_release_calls_def release_calls_def create_calls_def
      frame_calls_def wait_calls_def filter_concat filter_empty_conv) auto

text \<open>
  C7. A batch of messages without \<open>WM_QUIT\<close> whose last \<open>WM_SIZE\<close> is \<open>m\<close> leaves
  exactly the size of \<open>m\<close> pending, whatever sizes came before; the next
  \<open>RenderFrame\<close>, every call succeeding, calls \<open>ResizeBuffers\<close> exactly once, with that
  size, takes it as the window size and leaves nothing pending.
\<close>

theorem resize_notifications_coalesce:
  assumes "wf N s" "all_ok N nv" "message m = WM_SIZE"
    and "list_all (\<lambda>x. message x \<noteq> WM_SIZE) post"
    and "list_all (\<lambda>x. message x \<noteq> WM_QUIT) (pre @ m # post)"
  shows "\<exists>s1 s'. pump (pre @ m # post) s = (s1, False) \<and>
     mPendingResize s1 = Some (size_of m) \<and>
     RenderFrame N nv s1 = Returned s' \<and>
     filter resize_call (new_calls s s') =
       [ResizeBuffers (LOWORD (lParam m)) (HIWORD (lParam m))] \<and>
     mWindowSize s' = size_of m \<and> mPendingResize s' = None"
proof -
  let ?s1 = "fst (pump (pre @ m # post) s)"
  have q: "pump (pre @ m # post) s = (?s1, False)"
    using pump_no_quit [OF assms(5), of s] by (simp add: prod_eq_iff)
  have p: "mPendingResize ?s1 = Some (size_of m)"
    by (simp add: pump_pending [OF assms(5)] pending_after_last [OF assms(3,4)])
  have wf1: "wf N ?s1" using assms(1) by (simp add: wf_pump)
  from RenderFrame_resize_summary [OF wf1 p assms(2)]
  obtain s' where s': "RenderFrame N nv ?s1 = Returned s'"
     "calls s' = calls ?s1 @ quiesce_calls (mFenceValue ?s1 + 1) @ all_release_calls (mFrames ?s1) @
       [ResizeBuffers (mWidth (size_of m)) (mHeight (size_of m))] @
       concat (map (create_calls nv (resized nv (size_of m))) [0..<N]) @
       frame_calls 0 (mFenceValue ?s1 + 2) (mFenceValue ?s1 + 3) (size_of m) (mFrameCounter ?s1 + 1)"
     "mPendingResize s' = None" "mWindowSize s' = size_of m"
    by blast
  have "filter resize_call (new_calls s s') =
       [ResizeBuffers (LOWORD (lParam m)) (HIWORD (lParam m))]"
    unfolding new_calls_def s'(2) by (simp add: pump_fields size_of_def)
  with q p s' show ?thesis by blast
qed

theorem resize_notifications_coalesce_witness:
  "wf 2 sample_reused \<and> all_ok 2 ok_natives \<and>
   message (sample_message WM_SIZE 0x01E00280) = WM_SIZE \<and>
   list_all (\<lambda>x. message x \<noteq> WM_SIZE) [sample_message 0x000F 0] \<and>
   list_all (\<lambda>x. message x \<noteq> WM_QUIT)
     ([sample_message WM_SIZE 0x00C80190, sample_message WM_SIZE 0x012C0200] @
      sample_message WM_SIZE 0x01E00280 # [sample_message 0x000F 0]) \<and>
   size_of (sample_message WM_SIZE 0x01E00280) = \<lparr>mWidth = 640, mHeight = 480\<rparr> \<and>
   (\<exists>s1 s'. pump ([sample_message WM_SIZE 0x00C80190, sample_message WM_SIZE 0x012C0200] @
                  sample_message WM_SIZE 0x01E00280 # [sample_message 0x000F 0]) sample_reused =
              (s1, False) \<and>
      RenderFrame 2 ok_natives s1 = Returned s' \<and>
      filter resize_call (new_calls sample_reused s') = [ResizeBuffers 640 480] \<and>
      mWindowSize s' = \<lparr>mWidth = 640, mHeight = 480\<rparr> \<and> mPendingResize s' = None)"
proof -
  have sz: "size_of (sample_message WM_SIZE 0x01E00280) = \<lparr>mWidth = 640, mHeight = 480\<rparr>"
    by (simp add: size_of_def sample_message_def LOWORD_def HIWORD_def)
  have lo: "LOWORD (lParam (sample_message WM_SIZE 0x01E00280)) = 640"
    "HIWORD (lParam (sample_message WM_SIZE 0x01E00280)) = 480"
    by (simp_all add: sample_message_def LOWORD_def HIWORD_def)
  have h: "wf 2 sample_reused" "all_ok 2 ok_natives"
    "message (sample_message WM_SIZE 0x01E00280) = WM_SIZE"
    "list_all (\<lambda>x. message x \<noteq> WM_SIZE) [sample_message 0x000F 0]"
    "list_all (\<lambda>x. message x \<noteq> WM_QUIT)
     ([sample_message WM_SIZE 0x00C80190, sample_message WM_SIZE 0x012C0200] @
      sample_message WM_SIZE 0x01E00280 # [sample_message 0x000F 0])"
    by (simp_all add: wf_sample_reused sample_message_def WM_SIZE_def WM_QUIT_def)
  from resize_notifications_coalesce [OF h] 
  show ?thesis unfolding sz lo using h sz by blast
qed

subsection \<open>The render loop\<close>

lemma Run_exit: "mExitCode s = Some c \<Longrightarrow> Run N its s = Exit c s"
  by (subst Run.simps) simp

lemma Run_end: "mExitCode s = None \<Longrightarrow> Run N [] s = Running s"
  by (subst Run.simps) simp

lemma Run_iteration:
  assumes "mExitCode s = None" "snd (pump ms s) = False"
    and "RenderFrame N nv (fst (pump ms s)) = Returned s2"
  shows "Run N ((ms, nv) # rest) s = Run N rest s2"
  using assms by (subst Run.simps) (simp add: split_beta prod_eq_iff case_prod_beta split: prod.splits bool.splits)





subsection \<open>After a quiescence\<close>

lemma CleanupFrameContexts_zeroes:
  assumes "CleanupFrameContexts nv s = Returned s1"
  shows "list_all (\<lambda>f. frame_mFenceValue f = 0) (mFrames s1) \<and> mFrameIndex s1 = 0 \<and>
     list_all (\<lambda>f. mSkSurface f = None \<and> mRenderTarget f = None) (mFrames s1)"
  using assms
  by (cases "SUCCEEDED (hrSignalCleanup nv)"; cases "SUCCEEDED (hrSetEventCleanup nv)")
     (auto simp: CleanupFrameContexts_def Let_def release_all_def release_frame_def
        list_all_iff)

lemma cpu_blocking_filters [simp]:
  "filter cpu_blocking (quiesce_calls m) = [SkFlushAndSubmit True, WaitForSingleObject]"
  "filter cpu_blocking (all_release_calls fs) = []"
  "filter cpu_blocking (concat (map (create_calls nv sz) is)) = []"
  "filter cpu_blocking (frame_calls i m1 m2 ws fc) = []"
  "filter cpu_blocking (wait_calls 0) = []"
  by (simp_all add: quiesce_calls_def all_release_calls_def release_calls_def create_calls_def
      frame_calls_def wait_calls_def filter_concat filter_empty_conv) auto

lemma visits_Cons:
  "visits (c # cs) = (case reset_slot c of None \<Rightarrow> visits cs | Some i \<Rightarrow> i # visits cs)"
  by (simp add: visits_def map_filter_def split: option.splits)

lemma visits_setup: "list_all setup_call xs \<Longrightarrow> visits xs = []"
  by (auto simp: visits_def map_filter_def filter_empty_conv list_all_iff setup_call_no_reset)

lemma visits_quiesce [simp]:
  "visits (quiesce_calls m) = []" "visits (all_release_calls fs) = []"
  by (simp_all add: visits_setup setup_release_calls) (simp add: visits_def quiesce_calls_def map_filter_def)

lemma RenderFrames_unwaited:
  assumes "wf N s" "mPendingResize s = None" "list_all (all_ok N) nvs"
    and "mFrameIndex s + length nvs \<le> N"
    and "\<forall>k<length nvs. frame_mFenceValue (mFrames s ! (mFrameIndex s + k)) = 0"
  shows "\<exists>s'. RenderFrames N nvs s = Returned s' \<and>
     filter cpu_blocking (calls s') = filter cpu_blocking (calls s) \<and>
     visits (calls s') = visits (calls s) @ [mFrameIndex s..<mFrameIndex s + length nvs]"
  using assms
proof (induction nvs arbitrary: s)
  case Nil
  then show ?case by simp
next
  case (Cons nv nvs)
  let ?i = "mFrameIndex s"
  have ok: "all_ok N nv" "list_all (all_ok N) nvs" using Cons.prems(3) by simp_all
  have m0: "frame_mFenceValue (mFrames s ! ?i) = 0"
    using Cons.prems(5) by auto
  from RenderFrame_no_resize_summary [OF Cons.prems(1,2) ok(1)]
  obtain s1 where s1: "RenderFrame N nv s = Returned s1" "wf N s1"
    "calls s1 = calls s @ wait_calls (frame_mFenceValue (mFrames s ! ?i)) @
        frame_calls ?i (mFenceValue s + 1) (mFenceValue s + 2) (mWindowSize s) (mFrameCounter s + 1)"
    "mPendingResize s1 = None" "mFrameIndex s1 = (?i + 1) mod N"
    "\<forall>j. j \<noteq> ?i \<longrightarrow> mFrames s1 ! j = mFrames s ! j"
    by blast
  have c1: "filter cpu_blocking (calls s1) = filter cpu_blocking (calls s)"
    "visits (calls s1) = visits (calls s) @ [?i]"
    unfolding s1(3) m0 by simp_all
  show ?case
  proof (cases nvs)
    case Nil
    then show ?thesis using s1(1) c1 by simp
  next
    case (Cons nv' nvs')
    then have lt: "?i + 1 < N" using Cons.prems(4) by simp
    then have i1: "mFrameIndex s1 = ?i + 1" using s1(5) by simp
    have len: "mFrameIndex s1 + length nvs \<le> N" using i1 Cons.prems(4) by simp
    have z: "\<forall>k<length nvs. frame_mFenceValue (mFrames s1 ! (mFrameIndex s1 + k)) = 0"
    proof (intro allI impI)
      fix k assume "k < length nvs"
      then have "frame_mFenceValue (mFrames s ! (?i + Suc k)) = 0"
        using Cons.prems(5) by auto
      then show "frame_mFenceValue (mFrames s1 ! (mFrameIndex s1 + k)) = 0"
        using s1(6) i1 by simp
    qed
    from Cons.IH [OF s1(2,4) ok(2) len z]
    obtain s' where s': "RenderFrames N nvs s1 = Returned s'"
      "filter cpu_blocking (calls s') = filter cpu_blocking (calls s1)"
      "visits (calls s') = visits (calls s1) @ [mFrameIndex s1..<mFrameIndex s1 + length nvs]"
      by blast
    have "[?i..<?i + length (nv # nvs)] = ?i # [Suc ?i..<?i + length (nv # nvs)]"
      by (rule upt_conv_Cons) simp
    then have "[?i] @ [?i + 1..<?i + 1 + length nvs] = [?i..<?i + length (nv # nvs)]"
      by simp
    then show ?thesis
      using s' s1(1) c1 i1 by simp
  qed
qed

text \<open>
  C10. A quiescence that returns, in \<open>RenderFrame\<close> before a resize or in the
  destructor, leaves every slot with marker zero and the ring index at 0. Hence a
  frame that applies a pending
  resize and the frames after it, up to one full turn of the ring and with every call
  succeeding, block the CPU only for the quiescence itself: each slot is visited once,
  in order from slot 0, with no wait on the fence.
\<close>

theorem quiescence_resets_markers_and_index:
  assumes "wf N s" "mPendingResize s = Some sz" "list_all (all_ok N) (nv # nvs)" "length nvs < N"
  shows "(\<exists>s1. CleanupFrameContexts nv s = Returned s1 \<and>
            list_all (\<lambda>f. frame_mFenceValue f = 0) (mFrames s1) \<and> mFrameIndex s1 = 0) \<and>
         (\<exists>s1. HelloSkiaWindow_dtor nv s = Returned s1 \<and>
            list_all (\<lambda>f. frame_mFenceValue f = 0) (mFrames s1) \<and> mFrameIndex s1 = 0) \<and>
         (\<exists>s'. RenderFrames N (nv # nvs) s = Returned s' \<and>
            filter cpu_blocking (calls s') =
              filter cpu_blocking (calls s) @ [SkFlushAndSubmit True, WaitForSingleObject] \<and>
            visits (calls s') = visits (calls s) @ [0..<Suc (length nvs)])"
proof -
  have ok: "all_ok N nv" "list_all (all_ok N) nvs" using assms(3) by simp_all
  have "\<exists>s1. CleanupFrameContexts nv s = Returned s1"
    using ok(1) by (simp add: CleanupFrameContexts_ok all_ok_def)
  then obtain s1 where c: "CleanupFrameContexts nv s = Returned s1" by blast
  note z = CleanupFrameContexts_zeroes [OF c]
  from RenderFrame_resize_summary [OF assms(1,2) ok(1)]
  obtain s2 where s2: "RenderFrame N nv s = Returned s2" "wf N s2"
     "calls s2 = calls s @ quiesce_calls (mFenceValue s + 1) @ all_release_calls (mFrames s) @
       [ResizeBuffers (mWidth sz) (mHeight sz)] @
       concat (map (create_calls nv (resized nv sz)) [0..<N]) @
       frame_calls 0 (mFenceValue s + 2) (mFenceValue s + 3) sz (mFrameCounter s + 1)"
     "mPendingResize s2 = None" "mFrameIndex s2 = 1 mod N"
     "\<forall>j. 0 < j \<and> j < N \<longrightarrow> frame_mFenceValue (mFrames s2 ! j) = 0"
    by blast
  have c2: "filter cpu_blocking (calls s2) =
      filter cpu_blocking (calls s) @ [SkFlushAndSubmit True, WaitForSingleObject]"
    "visits (calls s2) = visits (calls s) @ [0]"
    unfolding s2(3) by (simp_all add: visits_Cons)
  have "\<exists>s'. RenderFrames N nvs s2 = Returned s' \<and>
     filter cpu_blocking (calls s') = filter cpu_blocking (calls s2) \<and>
     visits (calls s') = visits (calls s2) @ [1..<Suc (length nvs)]"
  proof (cases nvs)
    case Nil
    then show ?thesis by simp
  next
    case (Cons nv' nvs')
    then have N1: "1 < N" using assms(4) by simp
    then have i2: "mFrameIndex s2 = 1" using s2(5) by simp
    have len: "mFrameIndex s2 + length nvs \<le> N" using i2 assms(4) by simp
    have zz: "\<forall>k<length nvs. frame_mFenceValue (mFrames s2 ! (mFrameIndex s2 + k)) = 0"
      using s2(6) i2 assms(4) by simp
    from RenderFrames_unwaited [OF s2(2,4) ok(2) len zz] i2
    show ?thesis by simp
  qed
  then obtain s' where s': "RenderFrames N nvs s2 = Returned s'"
     "filter cpu_blocking (calls s') = filter cpu_blocking (calls s2)"
     "visits (calls s') = visits (calls s2) @ [1..<Suc (length nvs)]"
    by blast
  have r: "RenderFrames N (nv # nvs) s = Returned s'"
    by (simp add: s2(1) s'(1))
  have "[0..<Suc (length nvs)] = 0 # [Suc 0..<Suc (length nvs)]"
    by (rule upt_conv_Cons) simp
  then have v: "visits (calls s') = visits (calls s) @ [0..<Suc (length nvs)]"
    unfolding s'(3) c2 by simp
  have b: "filter cpu_blocking (calls s') =
      filter cpu_blocking (calls s) @ [SkFlushAndSubmit True, WaitForSingleObject]"
    unfolding s'(2) c2 by simp
  show ?thesis
    unfolding HelloSkiaWindow_dtor_def using c z r v b by blast
qed

theorem quiescence_resets_markers_and_index_witness:
  "wf 2 (sample_reused\<lparr>mPendingResize := Some \<lparr>mWidth = 640, mHeight = 480\<rparr>\<rparr>) \<and>
   mPendingResize (sample_reused\<lparr>mPendingResize := Some \<lparr>mWidth = 640, mHeight = 480\<rparr>\<rparr>) =
     Some \<lparr>mWidth = 640, mHeight = 480\<rparr> \<and>
   list_all (all_ok 2) (ok_natives # [ok_natives]) \<and> length [ok_natives] < 2 \<and>
   (\<exists>s1. CleanupFrameContexts ok_natives
           (sample_reused\<lparr>mPendingResize := Some \<lparr>mWidth = 640, mHeight = 480\<rparr>\<rparr>) = Returned s1 \<and>
      list_all (\<lambda>f. frame_mFenceValue f = 0) (mFrames s1) \<and> mFrameIndex s1 = 0) \<and>
   (\<exists>s'. RenderFrames 2 (ok_natives # [ok_natives])
           (sample_reused\<lparr>mPendingResize := Some \<lparr>mWidth = 640, mHeight = 480\<rparr>\<rparr>) = Returned s' \<and>
      filter cpu_blocking (calls s') = [SkFlushAndSubmit True, WaitForSingleObject] \<and>
      visits (calls s') = [0, 1, 0, 1])"
proof -
  let ?s = "sample_reused\<lparr>mPendingResize := Some \<lparr>mWidth = 640, mHeight = 480\<rparr>\<rparr>"
  have h: "wf 2 ?s" "mPendingResize ?s = Some \<lparr>mWidth = 640, mHeight = 480\<rparr>"
    "list_all (all_ok 2) (ok_natives # [ok_natives])" "length [ok_natives] < 2"
    using wf_sample_reused by (simp_all add: wf_def)
  have c: "filter cpu_blocking (calls ?s) = []" "visits (calls ?s) = [0, 1]"
    by (simp_all add: sample_reused_def create_calls_def visits_Cons)
  have u: "[0..<Suc (length [ok_natives])] = [0, 1]" by (simp add: upt_rec)
  from quiescence_resets_markers_and_index [OF h]
  show ?thesis using h unfolding c u by simp
qed

subsection \<open>Markers\<close>

lemma unat_marker_add:
  assumes "unat (c :: marker) + k < 2 ^ 64"
  shows "unat (c + word_of_nat k) = unat c + k"
proof -
  have "k < 2 ^ 64" using assms by simp
  then have "unat (word_of_nat k :: marker) = k"
    by (simp add: unat_of_nat)
  with assms show ?thesis
    using unat_add_lem [of c "word_of_nat k"] by simp
qed

lemma bumps_refl [simp]: "bumps 0 s s"
  by (simp add: bumps_def)

lemma bumps_trans:
  assumes "bumps k1 s s1" "bumps k2 s1 s2"
  shows "bumps (k1 + k2) s s2"
proof -
  from assms(1) obtain js1 where 1: "mFenceValue s1 = mFenceValue s + word_of_nat k1"
    "issued (calls s1) = issued (calls s) @ map (\<lambda>j. mFenceValue s + word_of_nat j) js1"
    "sorted_wrt (<) js1" "list_all (\<lambda>j. 0 < j \<and> j \<le> k1) js1"
    by (auto simp: bumps_def)
  from assms(2) obtain js2 where 2: "mFenceValue s2 = mFenceValue s1 + word_of_nat k2"
    "issued (calls s2) = issued (calls s1) @ map (\<lambda>j. mFenceValue s1 + word_of_nat j) js2"
    "sorted_wrt (<) js2" "list_all (\<lambda>j. 0 < j \<and> j \<le> k2) js2"
    by (auto simp: bumps_def)
  let ?js = "js1 @ map (\<lambda>j. k1 + j) js2"
  have "mFenceValue s2 = mFenceValue s + word_of_nat (k1 + k2)"
    using 1(1) 2(1) by simp
  moreover have "issued (calls s2) = issued (calls s) @ map (\<lambda>j. mFenceValue s + word_of_nat j) ?js"
    using 1(1,2) 2(2) by (simp add: comp_def add.assoc)
  moreover have "\<forall>x\<in>set js1. \<forall>y\<in>set js2. x < k1 + y"
    using 1(4) 2(4) by (fastforce simp: list_all_iff)
  then have "sorted_wrt (<) ?js"
    using 1(3) 2(3) by (simp add: sorted_wrt_append sorted_wrt_map)
  moreover have "list_all (\<lambda>j. 0 < j \<and> j \<le> k1 + k2) ?js"
    using 1(4) 2(4) by (auto simp: list_all_iff)
  ultimately show ?thesis unfolding bumps_def by blast
qed

lemma bumps_markers_ok:
  assumes "markers_ok (b + k) s" "bumps k s s'"
  shows "markers_ok b s' \<and> mFenceValue s \<le> mFenceValue s' \<and>
         take (length (issued (calls s))) (issued (calls s')) = issued (calls s)"
proof -
  let ?c = "mFenceValue s"
  from assms(2) obtain js where js: "mFenceValue s' = ?c + word_of_nat k"
    "issued (calls s') = issued (calls s) @ map (\<lambda>j. ?c + word_of_nat j) js"
    "sorted_wrt (<) js" "list_all (\<lambda>j. 0 < j \<and> j \<le> k) js"
    by (auto simp: bumps_def)
  have m: "sorted_wrt (<) (issued (calls s))" "\<forall>m\<in>set (issued (calls s)). unat m \<le> unat ?c"
    "unat ?c + (b + k) < 2 ^ 64"
    using assms(1) by (auto simp: markers_ok_def list_all_iff word_le_nat_alt)
  have u: "unat (?c + word_of_nat j) = unat ?c + j" if "j \<le> k" for j
    using that m(3) by (intro unat_marker_add) simp
  have c': "unat (mFenceValue s') = unat ?c + k"
    unfolding js(1) by (rule u) simp
  have new: "\<forall>j\<in>set js. unat (?c + word_of_nat j) = unat ?c + j \<and> 0 < j \<and> j \<le> k"
    using js(4) u by (auto simp: list_all_iff)
  have "sorted_wrt (\<lambda>x y. ?c + word_of_nat x < ?c + word_of_nat y) js"
  proof (rule sorted_wrt_mono_rel [OF _ js(3)])
    fix x y
    assume "x \<in> set js" "y \<in> set js" "x < y"
    then show "?c + word_of_nat x < ?c + word_of_nat y"
      using new by (simp add: word_less_nat_alt)
  qed
  then have s1: "sorted_wrt (<) (map (\<lambda>j. ?c + word_of_nat j) js)"
    by (simp add: sorted_wrt_map)
  have cross: "\<forall>x\<in>set (issued (calls s)). \<forall>j\<in>set js. x < ?c + word_of_nat j"
    using m(2) new by (fastforce simp: word_less_nat_alt)
  have "sorted_wrt (<) (issued (calls s'))"
    unfolding js(2) using m(1) s1 cross
    by (simp add: sorted_wrt_append)
  moreover have "list_all (\<lambda>m. m \<le> mFenceValue s') (issued (calls s'))"
    unfolding js(2) using m(2) new c'
    by (auto simp: list_all_iff word_le_nat_alt)
  moreover have "unat (mFenceValue s') + b < 2 ^ 64"
    using c' m(3) by simp
  moreover have "?c \<le> mFenceValue s'"
    using c' by (simp add: word_le_nat_alt)
  ultimately show ?thesis
    by (simp add: markers_ok_def js(2))
qed

lemma issued_Cons:
  "issued (c # cs) = (case signalled c of None \<Rightarrow> issued cs | Some m \<Rightarrow> m # issued cs)"
  by (simp add: issued_def map_filter_def split: option.splits)

lemma issued_Nil [simp]: "issued [] = []"
  by (simp add: issued_def map_filter_def)

lemma bumps_same: "mFenceValue s' = mFenceValue s \<Longrightarrow> issued (calls s') = issued (calls s) \<Longrightarrow> bumps 0 s s'"
  by (simp add: bumps_def)

lemma bumps_one:
  assumes "mFenceValue s' = mFenceValue s + 1" "issued (calls s') = issued (calls s) @ [mFenceValue s + 1]"
  shows "bumps 1 s s'"
  unfolding bumps_def using assms by (auto intro!: exI [of _ "[1]"])

lemma bumps_one_silent:
  assumes "mFenceValue s' = mFenceValue s + 1" "issued (calls s') = issued (calls s)"
  shows "bumps 1 s s'"
  unfolding bumps_def using assms by (auto intro!: exI [of _ "[]"])

lemma bumps_two:
  assumes "mFenceValue s' = mFenceValue s + 1 + 1"
    "issued (calls s') = issued (calls s) @ [mFenceValue s + 1, mFenceValue s + 1 + 1]"
  shows "bumps 2 s s'"
  unfolding bumps_def using assms by (auto intro!: exI [of _ "[1, 2]"])

lemma bumps_andThen:
  assumes "\<exists>k\<le>K1. bumps k s (final r)"
    and "\<And>s1. r = Returned s1 \<Longrightarrow> \<exists>k\<le>K2. bumps k s1 (final (f s1))"
  shows "\<exists>k\<le>K1 + K2. bumps k s (final (andThen r f))"
proof (cases r)
  case (Returned s1)
  from assms(1) Returned obtain k1 where k1: "k1 \<le> K1" "bumps k1 s s1" by auto
  from assms(2) [OF Returned] obtain k2 where k2: "k2 \<le> K2" "bumps k2 s1 (final (f s1))" by auto
  have "bumps (k1 + k2) s (final (f s1))" by (rule bumps_trans [OF k1(2) k2(2)])
  moreover have "k1 + k2 \<le> K1 + K2" using k1(1) k2(1) by simp
  ultimately show ?thesis using Returned by auto
next
  case (Raised e s1)
  from assms(1) Raised obtain k where k: "k \<le> K1" "bumps k s s1" by auto
  then have "k \<le> K1 + K2" by simp
  with k(2) Raised show ?thesis by auto
qed

lemma bumps_CreateRenderTarget: "bumps 0 s (final (CreateRenderTarget nv i s))"
  by (cases "SUCCEEDED (hrGetBuffer nv i)")
     (auto simp: CreateRenderTarget_def Let_def call_def issued_Cons intro!: bumps_same)

lemma bumps_CreateRenderTargets_from: "bumps 0 s (final (CreateRenderTargets_from nv is s))"
proof (induction "is" arbitrary: s)
  case Nil
  show ?case by simp
next
  case (Cons i "is")
  have "\<exists>k\<le>0 + 0. bumps k s (final (andThen (CreateRenderTarget nv i s) (CreateRenderTargets_from nv is)))"
    by (rule bumps_andThen) (auto simp: bumps_CreateRenderTarget Cons.IH)
  then show ?case by simp
qed

lemma issued_release [simp]: "issued (all_release_calls fs) = []"
  by (auto simp: issued_def map_filter_def all_release_calls_def release_calls_def filter_empty_conv)

lemma bumps_CleanupFrameContexts: "bumps 1 s (final (CleanupFrameContexts nv s))"
  by (cases "SUCCEEDED (hrSignalCleanup nv)"; cases "SUCCEEDED (hrSetEventCleanup nv)")
     (rule bumps_one; simp add: CleanupFrameContexts_def Let_def call_def release_all_def
        issued_Cons issued_release [unfolded all_release_calls_def])+

lemma bumps_RenderFrame_resize: "\<exists>k\<le>1. bumps k s (final (RenderFrame_resize N nv s))"
proof (cases "mPendingResize s")
  case None
  then show ?thesis by (auto simp: RenderFrame_resize_def)
next
  case (Some sz)
  have a: "\<exists>k\<le>0. bumps k s1 (final (CheckHResult (hrResizeBuffers nv)
              (call (ResizeBuffers (mWidth sz) (mHeight sz)) s1)))" for s1
    by (cases "SUCCEEDED (hrResizeBuffers nv)") (auto simp: issued_Cons intro!: bumps_same)
  have b: "\<exists>k\<le>0. bumps k s2 (final (andThen (CreateRenderTargets N nv (s2\<lparr>mSwapChain := resized nv sz\<rparr>))
              (\<lambda>s3. Returned (s3\<lparr>mWindowSize := sz, mPendingResize := None\<rparr>))))" for s2
  proof -
    have "\<exists>k\<le>0 + 0. bumps k (s2\<lparr>mSwapChain := resized nv sz\<rparr>)
            (final (andThen (CreateRenderTargets N nv (s2\<lparr>mSwapChain := resized nv sz\<rparr>))
              (\<lambda>s3. Returned (s3\<lparr>mWindowSize := sz, mPendingResize := None\<rparr>))))"
      unfolding CreateRenderTargets_def
      by (rule bumps_andThen) (auto simp: bumps_CreateRenderTargets_from intro!: bumps_same)
    then show ?thesis by (simp add: bumps_def)
  qed
  have "\<exists>k\<le>1 + (0 + 0). bumps k s (final (andThen (CleanupFrameContexts nv s) (\<lambda>s1.
          andThen (CheckHResult (hrResizeBuffers nv)
                     (call (ResizeBuffers (mWidth sz) (mHeight sz)) s1)) (\<lambda>s2.
          andThen (CreateRenderTargets N nv (s2\<lparr>mSwapChain := resized nv sz\<rparr>)) (\<lambda>s3.
            Returned (s3\<lparr>mWindowSize := sz, mPendingResize := None\<rparr>))))))"
  proof (rule bumps_andThen)
    show "\<exists>k\<le>1. bumps k s (final (CleanupFrameContexts nv s))"
      using bumps_CleanupFrameContexts by blast
  next
    fix s1
    show "\<exists>k\<le>0 + 0. bumps k s1 (final (andThen (CheckHResult (hrResizeBuffers nv)
                     (call (ResizeBuffers (mWidth sz) (mHeight sz)) s1)) (\<lambda>s2.
          andThen (CreateRenderTargets N nv (s2\<lparr>mSwapChain := resized nv sz\<rparr>)) (\<lambda>s3.
            Returned (s3\<lparr>mWindowSize := sz, mPendingResize := None\<rparr>)))))"
      by (rule bumps_andThen [OF a]) (rule b)
  qed
  then show ?thesis by (simp add: RenderFrame_resize_def Some)
qed

lemma RenderFrame_body_counter:
  "(mFenceValue (final (RenderFrame_body N nv s)) = mFenceValue s \<and>
      issued (calls (final (RenderFrame_body N nv s))) = issued (calls s)) \<or>
   (mFenceValue (final (RenderFrame_body N nv s)) = mFenceValue s + 1 \<and>
      issued (calls (final (RenderFrame_body N nv s))) = issued (calls s)) \<or>
   (mFenceValue (final (RenderFrame_body N nv s)) = mFenceValue s + 1 \<and>
      issued (calls (final (RenderFrame_body N nv s))) = issued (calls s) @ [mFenceValue s + 1]) \<or>
   (mFenceValue (final (RenderFrame_body N nv s)) = mFenceValue s + 1 + 1 \<and>
      issued (calls (final (RenderFrame_body N nv s))) =
        issued (calls s) @ [mFenceValue s + 1, mFenceValue s + 1 + 1])"
  by (auto simp: RenderFrame_body_def wait_for_frame_def RenderNonSkiaContent_def
      RenderSkiaContent_def RenderSkiaContent_canvas_def Let_def
      CheckHResult_def call_def issued_Cons split: if_splits option.splits)

lemma bumps_RenderFrame_body: "\<exists>k\<le>2. bumps k s (final (RenderFrame_body N nv s))"
  using RenderFrame_body_counter [of N nv s]
  by (metis bumps_same bumps_one bumps_one_silent bumps_two le_refl one_le_numeral zero_le)

lemma bumps_RenderFrame: "\<exists>k\<le>3. bumps k s (final (RenderFrame N nv s))"
proof -
  have three: "1 + 2 = (3::nat)" by simp
  show ?thesis
    unfolding RenderFrame_def three [symmetric]
    by (rule bumps_andThen [OF bumps_RenderFrame_resize bumps_RenderFrame_body])
qed

lemma bumps_pump: "bumps 0 s (fst (pump ms s))"
  by (rule bumps_same) (simp_all add: pump_fields)

lemma bumps_Run: "\<exists>k\<le>3 * length its. bumps k s (run_final (Run N its s))"
proof (induction its arbitrary: s)
  case Nil
  show ?case by (subst Run.simps) (simp split: option.splits)
next
  case (Cons it its)
  obtain ms nv where it: "it = (ms, nv)" by (cases it)
  let ?s1 = "fst (pump ms s)"
  show ?case
  proof (cases "mExitCode s")
    case (Some c)
    have "bumps 0 s s" by simp
    then show ?thesis using Some by (auto simp: Run_exit)
  next
    case None
    show ?thesis
    proof (cases "snd (pump ms s)")
      case True
      then have "Run N (it # its) s = Exit (value_or (mExitCode ?s1) 0) ?s1"
        using None it by (subst Run.simps) (simp add: case_prod_beta)
      then show ?thesis using bumps_pump [of s ms] by auto
    next
      case False
      then have nq: "snd (pump ms s) = False" by simp
      from bumps_RenderFrame [of ?s1 N nv]
      obtain k1 where k1: "k1 \<le> 3" "bumps k1 ?s1 (final (RenderFrame N nv ?s1))" by blast
      have k1': "bumps k1 s (final (RenderFrame N nv ?s1))"
        using bumps_trans [OF bumps_pump k1(2)] by simp
      show ?thesis
      proof (cases "RenderFrame N nv ?s1")
        case (Returned s2)
        have step: "Run N (it # its) s = Run N its s2"
          unfolding it by (rule Run_iteration [OF None nq Returned])
        from Cons.IH [of s2] obtain k2 where k2: "k2 \<le> 3 * length its"
          "bumps k2 s2 (run_final (Run N its s2))" by blast
        have "bumps (k1 + k2) s (run_final (Run N its s2))"
          using bumps_trans [OF _ k2(2)] k1' Returned by simp
        moreover have "k1 + k2 \<le> 3 * length (it # its)" using k1(1) k2(1) by simp
        ultimately show ?thesis unfolding step by blast
      next
        case (Raised e s2)
        then have "Run N (it # its) s = Terminated e s2"
          using None False it by (subst Run.simps) (simp add: case_prod_beta)
        moreover have "k1 \<le> 3 * length (it # its)" using k1(1) by simp
        ultimately show ?thesis using k1' Raised by auto
      qed
    qed
  qed
qed

lemma markers_ok_initial: "b < 2 ^ 64 \<Longrightarrow> markers_ok b (initial N sz)"
  by (simp add: markers_ok_def initial_def)

lemma markers_ok_mono: "markers_ok b s \<Longrightarrow> b' \<le> b \<Longrightarrow> markers_ok b' s"
  by (simp add: markers_ok_def)

text \<open>
  C2, as amended. Over a whole lifetime (the constructor, the render loop over any
  script of fewer than \<open>(2 ^ 64 - 1) / 3\<close> iterations whatever the messages and
  whatever the calls answer, then the destructor) the markers signalled on the queue
  are strictly increasing in the order they were signalled, none exceeds the counter,
  and the counter never decreases.
\<close>

theorem markers_strictly_increasing_until_wrap:
  assumes "HelloSkiaWindow_ctor N nv0 sz = Returned s0" "3 * length its + 1 < 2 ^ 64"
  shows "sorted_wrt (<) (issued (calls (final (HelloSkiaWindow_dtor nvd (run_final (Run N its s0)))))) \<and>
     list_all (\<lambda>m. m \<le> mFenceValue (final (HelloSkiaWindow_dtor nvd (run_final (Run N its s0)))))
       (issued (calls (final (HelloSkiaWindow_dtor nvd (run_final (Run N its s0)))))) \<and>
     mFenceValue s0 \<le> mFenceValue (run_final (Run N its s0)) \<and>
     mFenceValue (run_final (Run N its s0)) \<le>
       mFenceValue (final (HelloSkiaWindow_dtor nvd (run_final (Run N its s0))))"
proof -
  let ?B = "3 * length its + 1"
  let ?s1 = "run_final (Run N its s0)"
  let ?s2 = "final (HelloSkiaWindow_dtor nvd ?s1)"
  have "bumps 0 (initial N sz) s0"
    using bumps_CreateRenderTargets_from [of "initial N sz" nv0 "[0..<N]"] assms(1)
    by (simp add: HelloSkiaWindow_ctor_def CreateRenderTargets_def)
  then have m0: "markers_ok ?B s0"
    using bumps_markers_ok [of ?B 0 "initial N sz" s0] markers_ok_initial [OF assms(2)] by simp
  from bumps_Run [of its s0 N] obtain k where k: "k \<le> 3 * length its" "bumps k s0 ?s1"
    by blast
  have "markers_ok ((?B - k) + k) s0" using m0 k(1) by simp
  from bumps_markers_ok [OF this k(2)]
  have m1: "markers_ok (?B - k) ?s1" "mFenceValue s0 \<le> mFenceValue ?s1" by simp_all
  have d: "bumps 1 ?s1 ?s2"
    unfolding HelloSkiaWindow_dtor_def by (rule bumps_CleanupFrameContexts)
  have "?B - k - 1 + 1 = ?B - k" using k(1) by simp
  then have "markers_ok ((?B - k - 1) + 1) ?s1" using m1(1) by simp
  from bumps_markers_ok [OF this d]
  have m2: "markers_ok (?B - k - 1) ?s2" "mFenceValue ?s1 \<le> mFenceValue ?s2" by simp_all
  show ?thesis
    using m1(2) m2 by (simp add: markers_ok_def)
qed

theorem markers_strictly_increasing_until_wrap_witness:
  "HelloSkiaWindow_ctor 2 ok_natives sample_size = Returned sample_window \<and>
   3 * length [([sample_message WM_SIZE 0x01E00280], ok_natives), ([], ok_natives)] + 1 < (2::nat) ^ 64 \<and>
   sorted_wrt (<) (issued (calls (final (HelloSkiaWindow_dtor ok_natives (run_final
     (Run 2 [([sample_message WM_SIZE 0x01E00280], ok_natives), ([], ok_natives)] sample_window)))))) \<and>
   mFenceValue sample_window \<le> mFenceValue (run_final
     (Run 2 [([sample_message WM_SIZE 0x01E00280], ok_natives), ([], ok_natives)] sample_window))"
proof -
  have h: "3 * length [([sample_message WM_SIZE 0x01E00280], ok_natives), ([], ok_natives)] + 1 < (2::nat) ^ 64"
    by simp
  from markers_strictly_increasing_until_wrap [OF ctor_sample_window h, of ok_natives]
  show ?thesis using ctor_sample_window h by blast
qed

text \<open>
  C2, as stated, fails where the 64-bit counter wraps: with the counter at its largest
  value the next frame signals the markers 0 and 1 after \<open>2 ^ 64 - 1\<close>.
\<close>

theorem markers_wrap_counterexample:
  "mFenceValue sample_at_limit = 0xFFFFFFFFFFFFFFFF \<and>
   issued (calls sample_at_limit) =
     [0xFFFFFFFFFFFFFFFC, 0xFFFFFFFFFFFFFFFD, 0xFFFFFFFFFFFFFFFE, 0xFFFFFFFFFFFFFFFF] \<and>
   issued (calls (final (RenderFrame 2 ok_natives sample_at_limit))) =
     [0xFFFFFFFFFFFFFFFC, 0xFFFFFFFFFFFFFFFD, 0xFFFFFFFFFFFFFFFE, 0xFFFFFFFFFFFFFFFF, 0, 1] \<and>
   mFenceValue (final (RenderFrame 2 ok_natives sample_at_limit)) = 1 \<and>
   \<not> sorted_wrt (<) (issued (calls (final (RenderFrame 2 ok_natives sample_at_limit))))"
proof -
  have wf: "wf 2 sample_at_limit" by (simp add: wf_def sample_at_limit_def)
  have p: "mPendingResize sample_at_limit = None" by (simp add: sample_at_limit_def)
  have i: "issued (calls (final (RenderFrame 2 ok_natives sample_at_limit))) =
     [0xFFFFFFFFFFFFFFFC, 0xFFFFFFFFFFFFFFFD, 0xFFFFFFFFFFFFFFFE, 0xFFFFFFFFFFFFFFFF, 0, 1]"
    "mFenceValue (final (RenderFrame 2 ok_natives sample_at_limit)) = 1"
    unfolding RenderFrame_ok_no_resize [OF wf p all_ok_ok_natives]
    by (simp_all add: sample_at_limit_def)
  show ?thesis
    unfolding i by (simp add: sample_at_limit_def)
qed

subsection \<open>Resets and the submissions in flight\<close>

lemma observed_append: "observed (xs @ ys) st = observed ys (observed xs st)"
  by (induction xs arbitrary: st) simp_all

lemma safe_resets_append:
  "safe_resets (xs @ ys) st = (safe_resets xs st \<and> safe_resets ys (observed xs st))"
  by (induction xs arbitrary: st) auto

lemma safe_resets_quiet:
  "list_all (\<lambda>c. reset_slot c = None) xs \<Longrightarrow> safe_resets xs st"
  by (induction xs arbitrary: st) auto

lemma observed_inert:
  "list_all (\<lambda>c. \<forall>st. observe c st = st) xs \<Longrightarrow> observed xs st = st"
  by (induction xs arbitrary: st) auto

lemma RenderFrame_body_returns:
  assumes "RenderFrame_body N nv s = Returned s'"
  shows "mFrameIndex s < length (mFrames s) \<and> mSkSurface (mFrames s ! mFrameIndex s) \<noteq> None \<and>
     SUCCEEDED (hrAllocatorReset nv) \<and> SUCCEEDED (hrCommandListReset nv) \<and>
     SUCCEEDED (hrClose nv) \<and> SUCCEEDED (hrSignal nv) \<and> SUCCEEDED (hrPresent nv)"
  using assms
  by (auto simp: RenderFrame_body_def wait_for_frame_def RenderNonSkiaContent_def
      RenderSkiaContent_def RenderSkiaContent_canvas_def Let_def
      CheckHResult_def call_def split: if_splits option.splits)

lemma RenderFrame_body_shape:
  assumes "mFrameIndex s < length (mFrames s)"
  shows "\<exists>post. calls (final (RenderFrame_body N nv s)) =
        calls s @ wait_calls (frame_mFenceValue (mFrames s ! mFrameIndex s)) @
        AllocatorReset (mFrameIndex s) # post \<and>
        list_all (\<lambda>c. reset_slot c = None) post"
  using assms
  by (auto simp: RenderFrame_body_def wait_for_frame_def RenderNonSkiaContent_def
      RenderSkiaContent_def RenderSkiaContent_canvas_def Let_def wait_calls_def
      CheckHResult_def call_def split: if_splits option.splits)

lemma observed_wait_calls:
  "snd (observed (wait_calls m) (a, p)) =
     (if m = 0 then p else takeWhile (\<lambda>c. signalled c \<noteq> Some m) p)"
  by (simp add: wait_calls_def)

lemma waited_slot:
  assumes "list_all (stored N s) p" "m = frame_mFenceValue (mFrames s ! i)"
  shows "list_all (\<lambda>c. \<not> submission_on i c) (snd (observed (wait_calls m) (a, p)))"
proof -
  have "\<not> submission_on i c" if c: "c \<in> set p" "m = 0 \<or> signalled c \<noteq> Some m" for c
  proof (cases c)
    case (SkFlush j m')
    with assms c show ?thesis by (auto simp: list_all_iff)
  qed simp_all
  then show ?thesis
    unfolding observed_wait_calls
    by (auto simp: list_all_iff dest: set_takeWhileD)
qed

lemma waited_subset:
  "set (snd (observed (wait_calls m) (a, p))) \<subseteq> set p"
  unfolding observed_wait_calls by (auto dest: set_takeWhileD)

lemma observed_frame_calls:
  "observed (frame_calls i m1 m2 ws fc) (a, p) = (a, SkFlush i m2 # Signal m1 # p)"
  by (simp add: frame_calls_def)

lemma safe_frame_calls:
  "safe_resets (frame_calls i m1 m2 ws fc) (a, p) = list_all (\<lambda>c. \<not> submission_on i c) p"
  by (simp add: frame_calls_def)

lemma tracked_body:
  assumes wf: "wf N s" and tr: "tracked N s"
  shows "safe_resets (calls (final (RenderFrame_body N nv s))) (None, [])"
    and "RenderFrame_body N nv s = Returned s' \<Longrightarrow> mFenceValue s + 2 \<noteq> 0 \<Longrightarrow>
           tracked N s' \<and> wf N s' \<and> mFenceValue s' = mFenceValue s + 2"
proof -
  let ?i = "mFrameIndex s"
  let ?m = "frame_mFenceValue (mFrames s ! ?i)"
  obtain a p where st: "observed (calls s) (None, []) = (a, p)"
    by (cases "observed (calls s) (None, [])")
  have i: "?i < length (mFrames s)" "?i < N"
    using wf by (simp_all add: wf_def)
  have sf: "safe_resets (calls s) (None, [])" and p: "list_all (stored N s) p"
    using tr st by (simp_all add: tracked_def)
  obtain a1 p1 where st1: "observed (wait_calls ?m) (a, p) = (a1, p1)"
    by (cases "observed (wait_calls ?m) (a, p)")
  have p1: "list_all (\<lambda>c. \<not> submission_on ?i c) p1" "set p1 \<subseteq> set p"
    using waited_slot [OF p refl, of ?i a] waited_subset [of ?m a p] st1 by simp_all
  have w: "safe_resets (wait_calls ?m) (a, p)"
    by (rule safe_resets_quiet) (simp add: wait_calls_def)
  from RenderFrame_body_shape [OF i(1), of N nv]
  obtain post where post: "calls (final (RenderFrame_body N nv s)) =
        calls s @ wait_calls ?m @ AllocatorReset ?i # post"
        "list_all (\<lambda>c. reset_slot c = None) post"
    by blast
  show "safe_resets (calls (final (RenderFrame_body N nv s))) (None, [])"
    unfolding post(1) safe_resets_append st
    using sf w p1(1) st1 safe_resets_quiet [OF post(2)] by simp
  assume r: "RenderFrame_body N nv s = Returned s'" and nz: "mFenceValue s + 2 \<noteq> 0"
  from RenderFrame_body_returns [OF r]
  have ok: "mSkSurface (mFrames s ! ?i) \<noteq> None"
     "SUCCEEDED (hrAllocatorReset nv)" "SUCCEEDED (hrCommandListReset nv)"
     "SUCCEEDED (hrClose nv)" "SUCCEEDED (hrSignal nv)" "SUCCEEDED (hrPresent nv)"
    by simp_all
  have s': "s' = s\<lparr>mFrameCounter := mFrameCounter s + 1,
                 mFrameIndex := (mFrameIndex s + 1) mod N,
                 mFenceValue := mFenceValue s + 2,
                 mFrames := (mFrames s)[mFrameIndex s :=
                    (mFrames s ! mFrameIndex s)\<lparr>frame_mFenceValue := mFenceValue s + 2\<rparr>],
                 calls := calls s @ wait_calls ?m @
                    frame_calls (mFrameIndex s) (mFenceValue s + 1) (mFenceValue s + 2)
                      (mWindowSize s) (mFrameCounter s + 1)\<rparr>"
    using r unfolding RenderFrame_body_ok [OF i(1) ok] by simp
  have wf': "wf N s'" unfolding s' by (rule wf_frame [OF wf])
  have c': "calls s' = calls s @ wait_calls ?m @
                    frame_calls ?i (mFenceValue s + 1) (mFenceValue s + 2)
                      (mWindowSize s) (mFrameCounter s + 1)"
    unfolding s' by simp
  have safe': "safe_resets (calls s') (None, [])"
    unfolding c' safe_resets_append st st1 safe_frame_calls
    using sf w p1(1) by simp
  have obs': "snd (observed (calls s') (None, [])) =
      SkFlush ?i (mFenceValue s + 2) # Signal (mFenceValue s + 1) # p1"
    unfolding c' observed_append st st1 observed_frame_calls by simp
  have keep: "stored N s' c" if c: "c \<in> set p1" for c
  proof (cases c)
    case (SkFlush j m')
    have "stored N s c" "\<not> submission_on ?i c"
      using c p p1 by (auto simp: list_all_iff)
    then show ?thesis
      unfolding SkFlush s' using i by (auto simp: nth_list_update)
  qed simp_all
  have "stored N s' (SkFlush ?i (mFenceValue s + 2))"
    unfolding s' using i nz by simp
  then have "list_all (stored N s') (snd (observed (calls s') (None, [])))"
    unfolding obs' using keep by (auto simp: list_all_iff)
  then show "tracked N s' \<and> wf N s' \<and> mFenceValue s' = mFenceValue s + 2"
    using safe' wf' unfolding tracked_def by (simp add: s')
qed


lemma CreateRenderTarget_any:
  assumes "SUCCEEDED (hrGetBuffer nv i)"
  shows "CreateRenderTarget nv i s =
     Returned (s\<lparr>mFrames := (mFrames s)[i := created_frame nv
                    (if SUCCEEDED (hrGetDesc1 nv) then mSwapChain s else unwritten nv) i (mFrames s ! i)],
                 calls := calls s @ create_calls nv
                    (if SUCCEEDED (hrGetDesc1 nv) then mSwapChain s else unwritten nv) i\<rparr>)"
  using assms
  by (simp add: CreateRenderTarget_def Let_def create_calls_def created_frame_def call_def)

lemma CreateRenderTargets_from_any:
  assumes "list_all (\<lambda>i. SUCCEEDED (hrGetBuffer nv i)) is"
  shows "CreateRenderTargets_from nv is s =
     Returned (s\<lparr>mFrames := created nv
                    (if SUCCEEDED (hrGetDesc1 nv) then mSwapChain s else unwritten nv) is (mFrames s),
                 calls := calls s @ concat (map (create_calls nv
                    (if SUCCEEDED (hrGetDesc1 nv) then mSwapChain s else unwritten nv)) is)\<rparr>)"
  using assms
proof (induction "is" arbitrary: s)
  case Nil
  then show ?case by simp
next
  case (Cons i "is")
  then show ?case
    by (simp add: CreateRenderTarget_any)
qed

lemma CreateRenderTargets_from_successes:
  assumes "CreateRenderTargets_from nv is s = Returned s'"
  shows "list_all (\<lambda>i. SUCCEEDED (hrGetBuffer nv i)) is"
  using assms
proof (induction "is" arbitrary: s)
  case Nil
  then show ?case by simp
next
  case (Cons i "is")
  show ?case
  proof (cases "SUCCEEDED (hrGetBuffer nv i)")
    case True
    with Cons.prems Cons.IH show ?thesis
      by (simp add: CreateRenderTarget_any)
  next
    case False
    with Cons.prems show ?thesis
      by (simp add: CreateRenderTarget_def)
  qed
qed

lemma RenderFrame_resize_any:
  assumes "mPendingResize s = Some sz" "RenderFrame_resize N nv s = Returned s1"
  shows "s1 = s\<lparr>mFenceValue := mFenceValue s + 1, mFrameIndex := 0,
                 mSwapChain := resized nv sz, mWindowSize := sz, mPendingResize := None,
                 mFrames := created nv (if SUCCEEDED (hrGetDesc1 nv) then resized nv sz else unwritten nv)
                   [0..<N] (map release_frame (mFrames s)),
                 calls := calls s @ quiesce_calls (mFenceValue s + 1) @
                   all_release_calls (mFrames s) @ [ResizeBuffers (mWidth sz) (mHeight sz)] @
                   concat (map (create_calls nv
                     (if SUCCEEDED (hrGetDesc1 nv) then resized nv sz else unwritten nv)) [0..<N])\<rparr>"
proof -
  have ok: "SUCCEEDED (hrSignalCleanup nv)" "SUCCEEDED (hrSetEventCleanup nv)"
    "SUCCEEDED (hrResizeBuffers nv)"
    using assms
    by (cases "SUCCEEDED (hrSignalCleanup nv)"; cases "SUCCEEDED (hrSetEventCleanup nv)";
        cases "SUCCEEDED (hrResizeBuffers nv)";
        simp add: RenderFrame_resize_def CleanupFrameContexts_def Let_def)+
  let ?s2 = "(call (ResizeBuffers (mWidth sz) (mHeight sz))
     (s\<lparr>mFenceValue := mFenceValue s + 1, mFrameIndex := 0,
                 mFrames := map release_frame (mFrames s),
                 calls := calls s @ quiesce_calls (mFenceValue s + 1) @
                            all_release_calls (mFrames s)\<rparr>))\<lparr>mSwapChain := resized nv sz\<rparr>"
  have r: "andThen (CreateRenderTargets_from nv [0..<N] ?s2)
      (\<lambda>s3. Returned (s3\<lparr>mWindowSize := sz, mPendingResize := None\<rparr>)) = Returned s1"
    using assms ok
    by (simp add: RenderFrame_resize_def CleanupFrameContexts_ok CreateRenderTargets_def)
  then obtain s3 where s3: "CreateRenderTargets_from nv [0..<N] ?s2 = Returned s3"
    by (cases "CreateRenderTargets_from nv [0..<N] ?s2") simp_all
  from CreateRenderTargets_from_successes [OF s3]
  have gb: "list_all (\<lambda>i. SUCCEEDED (hrGetBuffer nv i)) [0..<N]" .
  show ?thesis
    using r unfolding CreateRenderTargets_from_any [OF gb]
    by (auto simp: call_def cong: if_cong)
qed

lemma inert_release_calls:
  "list_all (\<lambda>c. \<forall>st. observe c st = st) (all_release_calls fs)"
  by (auto simp: all_release_calls_def release_calls_def list_all_iff)

lemma inert_create_calls:
  "list_all (\<lambda>c. \<forall>st. observe c st = st) (concat (map (create_calls nv d) is))"
  by (auto simp: create_calls_def list_all_iff)

lemma observed_quiesce_calls:
  "observed (quiesce_calls m) (a, p) = (None, [])"
  by (simp add: quiesce_calls_def)

lemma tracked_resize:
  assumes wf: "wf N s" and tr: "tracked N s"
  shows "safe_resets (calls (final (RenderFrame_resize N nv s))) (None, [])"
    and "RenderFrame_resize N nv s = Returned s1 \<Longrightarrow>
           tracked N s1 \<and> wf N s1 \<and>
           (mFenceValue s1 = mFenceValue s \<or> mFenceValue s1 = mFenceValue s + 1)"
proof -
  have ext: "extends setup_call s (final (RenderFrame_resize N nv s))"
    by (rule extends_RenderFrame_resize)
  then have quiet: "list_all (\<lambda>c. reset_slot c = None) (new_calls s (final (RenderFrame_resize N nv s)))"
    by (auto simp: extends_def list_all_iff setup_call_no_reset)
  have sf: "safe_resets (calls s) (None, [])"
    using tr by (simp add: tracked_def)
  show safe: "safe_resets (calls (final (RenderFrame_resize N nv s))) (None, [])"
    unfolding extendsD [OF ext] safe_resets_append
    using sf safe_resets_quiet [OF quiet] by simp
  assume r: "RenderFrame_resize N nv s = Returned s1"
  show "tracked N s1 \<and> wf N s1 \<and>
           (mFenceValue s1 = mFenceValue s \<or> mFenceValue s1 = mFenceValue s + 1)"
  proof (cases "mPendingResize s")
    case None
    then have "s1 = s" using r by (simp add: RenderFrame_resize_def)
    then show ?thesis using wf tr by simp
  next
    case (Some sz)
    let ?d = "if SUCCEEDED (hrGetDesc1 nv) then resized nv sz else unwritten nv"
    note s1 = RenderFrame_resize_any [OF Some r]
    have N: "0 < N" "length (mFrames s) = N"
      using wf by (simp_all add: wf_def)
    have c1: "calls s1 = calls s @ quiesce_calls (mFenceValue s + 1) @
                   (all_release_calls (mFrames s) @ [ResizeBuffers (mWidth sz) (mHeight sz)] @
                   concat (map (create_calls nv ?d) [0..<N]))"
      by (subst s1) simp
    obtain a p where st: "observed (calls s) (None, []) = (a, p)"
      by (cases "observed (calls s) (None, [])")
    have obs: "observed (calls s1) (None, []) = (None, [])"
      by (simp add: c1 observed_append st observed_quiesce_calls
          observed_inert [OF inert_release_calls] observed_inert [OF inert_create_calls])
    have "list_all (\<lambda>f. mSkSurface f \<noteq> None) (mFrames s1)"
      by (subst s1) (use N in \<open>simp add: list_all_length wf_created_surface\<close>)
    moreover have "length (mFrames s1) = N" "mFrameIndex s1 = 0"
      "mFenceValue s1 = mFenceValue s + 1"
      by (subst s1, use N in simp)+
    ultimately have "wf N s1" "mFenceValue s1 = mFenceValue s + 1"
      using N by (simp_all add: wf_def)
    moreover have "tracked N s1"
      unfolding tracked_def obs using safe r by simp
    ultimately show ?thesis by simp
  qed
qed

lemma marker_not_zero:
  assumes "unat (c :: marker) + k < 2 ^ 64" "0 < k"
  shows "c + word_of_nat k \<noteq> 0"
proof
  assume "c + word_of_nat k = 0"
  then have "unat (c + word_of_nat k) = 0" by simp
  with unat_marker_add [OF assms(1)] assms(2) show False by simp
qed

lemma tracked_RenderFrame:
  assumes wf: "wf N s" and tr: "tracked N s" and b: "unat (mFenceValue s) + 3 < 2 ^ 64"
  shows "safe_resets (calls (final (RenderFrame N nv s))) (None, [])"
    and "RenderFrame N nv s = Returned s' \<Longrightarrow>
           tracked N s' \<and> wf N s' \<and> unat (mFenceValue s') \<le> unat (mFenceValue s) + 3"
proof -
  show "safe_resets (calls (final (RenderFrame N nv s))) (None, [])"
  proof (cases "RenderFrame_resize N nv s")
    case (Returned s1)
    from tracked_resize(2) [OF wf tr Returned]
    have s1: "tracked N s1" "wf N s1" by simp_all
    show ?thesis
      unfolding RenderFrame_def Returned andThen.simps
      by (rule tracked_body(1) [OF s1(2,1)])
  next
    case (Raised e s1)
    with tracked_resize(1) [OF wf tr, of nv] show ?thesis
      by (simp add: RenderFrame_def)
  qed
  assume r: "RenderFrame N nv s = Returned s'"
  then obtain s1 where s1: "RenderFrame_resize N nv s = Returned s1"
    "RenderFrame_body N nv s1 = Returned s'"
    by (cases "RenderFrame_resize N nv s") (simp_all add: RenderFrame_def)
  from tracked_resize(2) [OF wf tr s1(1)]
  have t1: "tracked N s1" "wf N s1"
    and c1: "mFenceValue s1 = mFenceValue s \<or> mFenceValue s1 = mFenceValue s + 1"
    by simp_all
  have u1: "unat (mFenceValue s1) \<le> unat (mFenceValue s) + 1"
    using c1 unat_marker_add [of "mFenceValue s" 1] b by auto
  then have b1: "unat (mFenceValue s1) + 2 < 2 ^ 64" using b by simp
  have nz: "mFenceValue s1 + 2 \<noteq> 0"
    using marker_not_zero [OF b1] by simp
  from tracked_body(2) [OF t1(2,1) s1(2) nz]
  have t': "tracked N s'" "wf N s'" "mFenceValue s' = mFenceValue s1 + 2" by simp_all
  have "unat (mFenceValue s') = unat (mFenceValue s1) + 2"
    using unat_marker_add [OF b1] t'(3) by simp
  with u1 t' show "tracked N s' \<and> wf N s' \<and> unat (mFenceValue s') \<le> unat (mFenceValue s) + 3"
    by simp
qed

lemma tracked_pump: "tracked N (fst (pump ms s)) = tracked N s"
proof -
  have "stored N (fst (pump ms s)) = stored N s"
  proof (rule ext)
    fix c show "stored N (fst (pump ms s)) c = stored N s c"
      by (cases c) (simp_all add: pump_fields)
  qed
  then show ?thesis by (simp add: tracked_def pump_fields)
qed

lemma tracked_Run:
  assumes "wf N s" "tracked N s" "unat (mFenceValue s) + 3 * length its < 2 ^ 64"
  shows "safe_resets (calls (run_final (Run N its s))) (None, [])"
  using assms
proof (induction its arbitrary: s)
  case Nil
  then show ?case
    by (subst Run.simps) (simp add: tracked_def split: option.splits)
next
  case (Cons it its)
  obtain ms nv where it: "it = (ms, nv)" by (cases it)
  let ?s1 = "fst (pump ms s)"
  have sf: "safe_resets (calls s) (None, [])"
    using Cons.prems(2) by (simp add: tracked_def)
  have p1: "wf N ?s1" "tracked N ?s1" "unat (mFenceValue ?s1) + 3 < 2 ^ 64"
    using Cons.prems by (simp_all add: wf_pump tracked_pump pump_fields)
  show ?case
  proof (cases "mExitCode s")
    case (Some c)
    then show ?thesis using sf by (simp add: Run_exit)
  next
    case None
    show ?thesis
    proof (cases "snd (pump ms s)")
      case True
      then have "Run N (it # its) s = Exit (value_or (mExitCode ?s1) 0) ?s1"
        using None it by (subst Run.simps) (simp add: case_prod_beta)
      then show ?thesis using sf by (simp add: pump_fields)
    next
      case False
      then have nq: "snd (pump ms s) = False" by simp
      show ?thesis
      proof (cases "RenderFrame N nv ?s1")
        case (Returned s2)
        have step: "Run N (it # its) s = Run N its s2"
          unfolding it by (rule Run_iteration [OF None nq Returned])
        from tracked_RenderFrame(2) [OF p1 Returned]
        have s2: "tracked N s2" "wf N s2" "unat (mFenceValue s2) \<le> unat (mFenceValue ?s1) + 3"
          by simp_all
        have "unat (mFenceValue s2) + 3 * length its < 2 ^ 64"
          using s2(3) Cons.prems(3) by (simp add: pump_fields)
        from Cons.IH [OF s2(2,1) this] show ?thesis unfolding step .
      next
        case (Raised e s2)
        then have "Run N (it # its) s = Terminated e s2"
          using None False it by (subst Run.simps) (simp add: case_prod_beta)
        with tracked_RenderFrame(1) [OF p1, of nv] Raised show ?thesis by simp
      qed
    qed
  qed
qed

lemma tracked_ctor:
  assumes "HelloSkiaWindow_ctor N nv sz = Returned s0" "0 < N"
  shows "wf N s0 \<and> tracked N s0 \<and> mFenceValue s0 = 0"
proof -
  let ?d = "if SUCCEEDED (hrGetDesc1 nv) then sz else unwritten nv"
  have r: "CreateRenderTargets_from nv [0..<N] (initial N sz) = Returned s0"
    using assms(1) by (simp add: HelloSkiaWindow_ctor_def CreateRenderTargets_def)
  from CreateRenderTargets_from_successes [OF r]
  have gb: "list_all (\<lambda>i. SUCCEEDED (hrGetBuffer nv i)) [0..<N]" .
  have s0: "s0 = (initial N sz)\<lparr>mFrames := created nv ?d [0..<N] (mFrames (initial N sz)),
       calls := concat (map (create_calls nv ?d) [0..<N])\<rparr>"
    using r unfolding CreateRenderTargets_from_any [OF gb]
    by (auto simp: initial_def cong: if_cong)
  have "list_all (\<lambda>f. mSkSurface f \<noteq> None) (mFrames s0)"
    unfolding s0 by (simp add: list_all_length wf_created_surface initial_def)
  then have "wf N s0"
    using assms(2) unfolding s0 by (simp add: wf_def initial_def)
  moreover have "mFenceValue s0 = 0" unfolding s0 by (simp add: initial_def)
  moreover have "observed (calls s0) (None, []) = (None, [])"
    unfolding s0 using observed_inert [OF inert_create_calls] by simp
  moreover have "safe_resets (calls s0) (None, [])"
    unfolding s0 by (rule safe_resets_quiet) (auto simp: create_calls_def list_all_iff)
  ultimately show ?thesis by (simp add: tracked_def)
qed


lemma RenderFrame_reset_shape:
  assumes "AllocatorReset j \<in> set (new_calls s (final (RenderFrame N nv s)))"
  shows "\<exists>s1 post. RenderFrame_resize N nv s = Returned s1 \<and>
     j = mFrameIndex s1 \<and> j < length (mFrames s1) \<and>
     new_calls s (final (RenderFrame N nv s)) =
       new_calls s s1 @ wait_calls (frame_mFenceValue (mFrames s1 ! j)) @ AllocatorReset j # post \<and>
     list_all (\<lambda>c. reset_slot c = None) (new_calls s s1) \<and>
     list_all (\<lambda>c. reset_slot c = None) post"
proof -
  have ext: "extends setup_call s (final (RenderFrame_resize N nv s))"
    by (rule extends_RenderFrame_resize)
  then have quiet: "list_all (\<lambda>c. reset_slot c = None) (new_calls s (final (RenderFrame_resize N nv s)))"
    by (auto simp: extends_def list_all_iff setup_call_no_reset)
  show ?thesis
  proof (cases "RenderFrame_resize N nv s")
    case (Returned s1)
    have ext1: "extends setup_call s s1"
      using ext Returned by simp
    have split: "new_calls s (final (RenderFrame_body N nv s1)) =
        new_calls s s1 @ new_calls s1 (final (RenderFrame_body N nv s1))"
      by (rule new_calls_trans [OF ext1 extends_RenderFrame_body])
    have "AllocatorReset j \<in> set (new_calls s1 (final (RenderFrame_body N nv s1)))"
      using assms quiet Returned split by (auto simp: RenderFrame_def list_all_iff)
    from RenderFrame_body_reset [OF this] quiet Returned split show ?thesis
      by (auto simp: RenderFrame_def)
  next
    case (Raised e s1)
    with assms quiet show ?thesis by (auto simp: RenderFrame_def list_all_iff)
  qed
qed

lemma Run_RenderFrames:
  assumes "wf N s" "mExitCode s = None" "list_all (all_ok N) nvs"
  shows "Run N (map (Pair []) nvs) s = Running (final (RenderFrames N nvs s))"
  using assms
proof (induction nvs arbitrary: s)
  case Nil
  then show ?case by (simp add: Run_end)
next
  case (Cons nv nvs)
  from RenderFrame_returns [OF Cons.prems(1), of nv] Cons.prems(3)
  obtain s' where s': "RenderFrame N nv s = Returned s'" "wf N s'" "mExitCode s' = mExitCode s"
    by auto
  have "Run N (([], nv) # map (Pair []) nvs) s = Run N (map (Pair []) nvs) s'"
    by (rule Run_iteration) (use Cons.prems(2) s'(1) in simp_all)
  also have "\<dots> = Running (final (RenderFrames N nvs s'))"
    by (rule Cons.IH) (use s' Cons.prems in simp_all)
  finally show ?case by (simp add: s'(1))
qed

lemma sample_third_frame:
  "final (RenderFrames 2 [ok_natives, ok_natives, ok_natives] sample_window) =
     sample_reused\<lparr>mFrameCounter := 3, mFrameIndex := 1, mFenceValue := 6,
        mFrames := [\<lparr>mRenderTarget = Some 0, mRenderTargetView = 4096,
                   mSkSurface = Some sample_size, frame_mFenceValue = 6\<rparr>,
                 \<lparr>mRenderTarget = Some 1, mRenderTargetView = 4128,
                   mSkSurface = Some sample_size, frame_mFenceValue = 4\<rparr>],
        calls := calls sample_reused @ [SetEventOnCompletion 2, WaitForSingleObject] @
                   frame_calls 0 5 6 sample_size 3\<rparr>"
proof -
  have p: "mPendingResize sample_window = None" by (simp add: sample_window_def)
  from RenderFrame_returns [OF wf_sample_window all_ok_ok_natives]
  obtain s1 where s1: "RenderFrame 2 ok_natives sample_window = Returned s1" by blast
  from sample_window_reused s1
  have 2: "RenderFrame 2 ok_natives s1 = Returned sample_reused"
    by (cases "RenderFrame 2 ok_natives s1") simp_all
  show ?thesis
    unfolding RenderFrames.simps s1 andThen.simps 2 sample_reused_frame by simp
qed


lemma sample_run_log:
  "calls (run_final (Run 2 [([], ok_natives), ([], ok_natives), ([], ok_natives)] sample_window)) =
     calls sample_reused @ [SetEventOnCompletion 2, WaitForSingleObject] @
       frame_calls 0 5 6 sample_size 3"
proof -
  have e: "mExitCode sample_window = None" by (simp add: sample_window_def)
  have "Run 2 (map (Pair []) [ok_natives, ok_natives, ok_natives]) sample_window =
      Running (final (RenderFrames 2 [ok_natives, ok_natives, ok_natives] sample_window))"
    by (rule Run_RenderFrames [OF wf_sample_window e]) simp
  then show ?thesis
    unfolding sample_third_frame by simp
qed

text \<open>
  C1, as amended. Over a lifetime in which the 64-bit counter does not wrap (the
  constructor, then the render loop over any script of fewer than \<open>2 ^ 64 / 3\<close>
  iterations, whatever the messages and whatever the calls answer) no command
  allocator is reset while a submission of its slot is in flight: wherever the log
  has \<open>AllocatorReset i\<close>, every flush on slot \<open>i\<close> before it was followed by a wait
  on the event armed with the marker of that flush or of a later signal of the queue.
  And in every call of \<open>RenderFrame\<close> that resets a command allocator, at the wrap or
  not, it is the allocator of the slot the ring index points at once the
  pending-resize block is through; the reset is the first call after that block when
  the slot's stored marker is zero, and otherwise comes directly after
  \<open>SetEventOnCompletion\<close> on exactly that marker and the unbounded wait on the event;
  there is no other reset in the call.
\<close>

theorem reset_only_after_wait_until_wrap:
  assumes "HelloSkiaWindow_ctor N nv0 sz = Returned s0" "0 < N" "3 * length its < 2 ^ 64"
  shows "safe_resets (calls (run_final (Run N its s0))) (None, []) \<and>
     (AllocatorReset j \<in> set (new_calls s (final (RenderFrame N nv s))) \<longrightarrow>
        (\<exists>s1 post. RenderFrame_resize N nv s = Returned s1 \<and>
           j = mFrameIndex s1 \<and> j < length (mFrames s1) \<and>
           new_calls s (final (RenderFrame N nv s)) =
             new_calls s s1 @ wait_calls (frame_mFenceValue (mFrames s1 ! j)) @
             AllocatorReset j # post \<and>
           list_all (\<lambda>c. reset_slot c = None) (new_calls s s1) \<and>
           list_all (\<lambda>c. reset_slot c = None) post))"
proof (intro conjI impI)
  from tracked_ctor [OF assms(1,2)]
  have s0: "wf N s0" "tracked N s0" "mFenceValue s0 = 0" by simp_all
  have "unat (mFenceValue s0) + 3 * length its < 2 ^ 64"
    using assms(3) s0(3) by simp
  from tracked_Run [OF s0(1,2) this]
  show "safe_resets (calls (run_final (Run N its s0))) (None, [])" .
next
  assume "AllocatorReset j \<in> set (new_calls s (final (RenderFrame N nv s)))"
  then show "\<exists>s1 post. RenderFrame_resize N nv s = Returned s1 \<and>
           j = mFrameIndex s1 \<and> j < length (mFrames s1) \<and>
           new_calls s (final (RenderFrame N nv s)) =
             new_calls s s1 @ wait_calls (frame_mFenceValue (mFrames s1 ! j)) @
             AllocatorReset j # post \<and>
           list_all (\<lambda>c. reset_slot c = None) (new_calls s s1) \<and>
           list_all (\<lambda>c. reset_slot c = None) post"
    by (rule RenderFrame_reset_shape)
qed

theorem reset_only_after_wait_until_wrap_witness:
  "HelloSkiaWindow_ctor 2 ok_natives sample_size = Returned sample_window \<and> 0 < (2::nat) \<and>
   3 * length [([], ok_natives), ([], ok_natives), ([], ok_natives)] < (2::nat) ^ 64 \<and>
   calls (run_final (Run 2 [([], ok_natives), ([], ok_natives), ([], ok_natives)] sample_window)) =
     calls sample_reused @ [SetEventOnCompletion 2, WaitForSingleObject] @
       frame_calls 0 5 6 sample_size 3 \<and>
   safe_resets (calls sample_reused @ [SetEventOnCompletion 2, WaitForSingleObject] @
       frame_calls 0 5 6 sample_size 3) (None, []) \<and>
   AllocatorReset 0 \<in> set (new_calls sample_reused (final (RenderFrame 2 ok_natives sample_reused))) \<and>
   (\<exists>s1 post. RenderFrame_resize 2 ok_natives sample_reused = Returned s1 \<and>
      frame_mFenceValue (mFrames s1 ! 0) = 2 \<and>
      new_calls sample_reused (final (RenderFrame 2 ok_natives sample_reused)) =
        new_calls sample_reused s1 @ [SetEventOnCompletion 2, WaitForSingleObject] @
        AllocatorReset 0 # post)"
proof -
  let ?its = "[([], ok_natives), ([], ok_natives), ([], ok_natives)]"
  have h: "HelloSkiaWindow_ctor 2 ok_natives sample_size = Returned sample_window" "0 < (2::nat)"
    "3 * length ?its < (2::nat) ^ 64"
    by (simp_all add: ctor_sample_window)
  have r: "AllocatorReset 0 \<in> set (new_calls sample_reused (final (RenderFrame 2 ok_natives sample_reused)))"
    by (simp add: sample_reused_frame new_calls_def frame_calls_def)
  note t = reset_only_after_wait_until_wrap [OF h, of 0 sample_reused ok_natives]
  from t r obtain s1 post where s1: "RenderFrame_resize 2 ok_natives sample_reused = Returned s1"
    "new_calls sample_reused (final (RenderFrame 2 ok_natives sample_reused)) =
       new_calls sample_reused s1 @ wait_calls (frame_mFenceValue (mFrames s1 ! 0)) @
       AllocatorReset 0 # post"
    by blast
  have "s1 = sample_reused"
    using s1(1) by (simp add: RenderFrame_resize_def sample_reused_def)
  then have m: "frame_mFenceValue (mFrames s1 ! 0) = 2"
    by (simp add: sample_reused_def)
  have c: "new_calls sample_reused (final (RenderFrame 2 ok_natives sample_reused)) =
        new_calls sample_reused s1 @ [SetEventOnCompletion 2, WaitForSingleObject] @
        AllocatorReset 0 # post"
    using s1(2) unfolding m by (simp add: wait_calls_def)
  from t have "safe_resets (calls (run_final (Run 2 ?its sample_window))) (None, [])"
    by blast
  then have sf: "safe_resets (calls sample_reused @ [SetEventOnCompletion 2, WaitForSingleObject] @
       frame_calls 0 5 6 sample_size 3) (None, [])"
    unfolding sample_run_log .
  show ?thesis
    using h r sf sample_run_log s1(1) m c by blast
qed

lemma wf_sample_before_wrap: "wf 2 sample_before_wrap"
  by (simp add: wf_def sample_before_wrap_def)

text \<open>
  C1, as stated, fails where the counter wraps. Two below the wrap, the frame on slot
  1 is flushed with marker 0, and that is what the slot stores. The next frame, on
  slot 0, waits for that slot's earlier marker, which was signalled before that
  flush. The frame after it finds the stored marker of slot 1 zero and resets the
  slot's allocator without a wait, while no wait has covered the flush with marker 0.
\<close>

theorem reset_without_wait_at_wrap:
  "RenderFrames 2 [ok_natives, ok_natives, ok_natives] sample_before_wrap =
     Returned (final (RenderFrames 2 [ok_natives, ok_natives, ok_natives] sample_before_wrap)) \<and>
   new_calls sample_before_wrap
       (final (RenderFrames 2 [ok_natives, ok_natives, ok_natives] sample_before_wrap)) =
     [SetEventOnCompletion 0xFFFFFFFFFFFFFFFC, WaitForSingleObject] @
     frame_calls 1 0xFFFFFFFFFFFFFFFF 0 sample_size 9223372036854775808 @
     [SetEventOnCompletion 0xFFFFFFFFFFFFFFFE, WaitForSingleObject] @
     frame_calls 0 1 2 sample_size 9223372036854775809 @
     frame_calls 1 3 4 sample_size 9223372036854775810 \<and>
   \<not> safe_resets (new_calls sample_before_wrap
       (final (RenderFrames 2 [ok_natives, ok_natives, ok_natives] sample_before_wrap))) (None, [])"
proof -
  let ?s0 = sample_before_wrap
  have p0: "mPendingResize ?s0 = None" by (simp add: sample_before_wrap_def)
  have z: "(18446744073709551616 :: marker) = 0"
    by (simp add: word_eq_iff_unsigned [where ?'a = int])
  have 1: "RenderFrame 2 ok_natives ?s0 = Returned
     (?s0\<lparr>mFrameCounter := 9223372036854775808, mFrameIndex := 0, mFenceValue := 0,
        mFrames := [\<lparr>mRenderTarget = Some 0, mRenderTargetView = 4096,
                   mSkSurface = Some sample_size, frame_mFenceValue = 0xFFFFFFFFFFFFFFFE\<rparr>,
                 \<lparr>mRenderTarget = Some 1, mRenderTargetView = 4128,
                   mSkSurface = Some sample_size, frame_mFenceValue = 0\<rparr>],
        calls := calls ?s0 @ [SetEventOnCompletion 0xFFFFFFFFFFFFFFFC, WaitForSingleObject] @
           frame_calls 1 0xFFFFFFFFFFFFFFFF 0 sample_size 9223372036854775808\<rparr>)"
    (is "_ = Returned ?s1")
    unfolding RenderFrame_ok_no_resize [OF wf_sample_before_wrap p0 all_ok_ok_natives]
    by (simp add: sample_before_wrap_def wait_calls_def z)
  have wf1: "wf 2 ?s1" by (simp add: wf_def sample_before_wrap_def)
  have p1: "mPendingResize ?s1 = None" by (simp add: sample_before_wrap_def)
  have 2: "RenderFrame 2 ok_natives ?s1 = Returned
     (?s0\<lparr>mFrameCounter := 9223372036854775809, mFrameIndex := 1, mFenceValue := 2,
        mFrames := [\<lparr>mRenderTarget = Some 0, mRenderTargetView = 4096,
                   mSkSurface = Some sample_size, frame_mFenceValue = 2\<rparr>,
                 \<lparr>mRenderTarget = Some 1, mRenderTargetView = 4128,
                   mSkSurface = Some sample_size, frame_mFenceValue = 0\<rparr>],
        calls := calls ?s0 @ [SetEventOnCompletion 0xFFFFFFFFFFFFFFFC, WaitForSingleObject] @
           frame_calls 1 0xFFFFFFFFFFFFFFFF 0 sample_size 9223372036854775808 @
           [SetEventOnCompletion 0xFFFFFFFFFFFFFFFE, WaitForSingleObject] @
           frame_calls 0 1 2 sample_size 9223372036854775809\<rparr>)"
    (is "_ = Returned ?s2")
    unfolding RenderFrame_ok_no_resize [OF wf1 p1 all_ok_ok_natives]
    by (simp add: sample_before_wrap_def wait_calls_def)
  have wf2: "wf 2 ?s2" by (simp add: wf_def sample_before_wrap_def)
  have p2: "mPendingResize ?s2 = None" by (simp add: sample_before_wrap_def)
  have 3: "RenderFrame 2 ok_natives ?s2 = Returned
     (?s0\<lparr>mFrameCounter := 9223372036854775810, mFrameIndex := 0, mFenceValue := 4,
        mFrames := [\<lparr>mRenderTarget = Some 0, mRenderTargetView = 4096,
                   mSkSurface = Some sample_size, frame_mFenceValue = 2\<rparr>,
                 \<lparr>mRenderTarget = Some 1, mRenderTargetView = 4128,
                   mSkSurface = Some sample_size, frame_mFenceValue = 4\<rparr>],
        calls := calls ?s0 @ [SetEventOnCompletion 0xFFFFFFFFFFFFFFFC, WaitForSingleObject] @
           frame_calls 1 0xFFFFFFFFFFFFFFFF 0 sample_size 9223372036854775808 @
           [SetEventOnCompletion 0xFFFFFFFFFFFFFFFE, WaitForSingleObject] @
           frame_calls 0 1 2 sample_size 9223372036854775809 @
           frame_calls 1 3 4 sample_size 9223372036854775810\<rparr>)"
    (is "_ = Returned ?s3")
    unfolding RenderFrame_ok_no_resize [OF wf2 p2 all_ok_ok_natives]
    by (simp add: sample_before_wrap_def wait_calls_def)
  have r: "RenderFrames 2 [ok_natives, ok_natives, ok_natives] ?s0 = Returned ?s3"
    unfolding RenderFrames.simps 1 andThen.simps 2 3 ..
  have n: "new_calls ?s0 ?s3 =
     [SetEventOnCompletion 0xFFFFFFFFFFFFFFFC, WaitForSingleObject] @
     frame_calls 1 0xFFFFFFFFFFFFFFFF 0 sample_size 9223372036854775808 @
     [SetEventOnCompletion 0xFFFFFFFFFFFFFFFE, WaitForSingleObject] @
     frame_calls 0 1 2 sample_size 9223372036854775809 @
     frame_calls 1 3 4 sample_size 9223372036854775810"
    by (simp add: new_calls_def)
  have "\<not> safe_resets (new_calls ?s0 ?s3) (None, [])"
    unfolding n by (simp add: frame_calls_def)
  with r n show ?thesis by simp
qed

subsection \<open>Fail-fast on the checked calls\<close>

lemma fail_fast_calls_append:
  "fail_fast_calls (xs @ ys) =
     (if fail_fast_error xs = None then fail_fast_calls xs @ fail_fast_calls ys
      else fail_fast_calls xs)"
  by (induction xs rule: fail_fast_calls.induct) simp_all

lemma fail_fast_error_append:
  "fail_fast_error (xs @ ys) =
     (if fail_fast_error xs = None then fail_fast_error ys else fail_fast_error xs)"
  by (induction xs rule: fail_fast_error.induct) simp_all

lemma fail_fast_unchecked [simp]:
  "fail_fast_calls (map Unchecked cs) = cs" "fail_fast_error (map Unchecked cs) = None"
  by (induction cs) simp_all

lemma carries_out_andThen:
  assumes "carries_out xs s r" "\<And>s1. r = Returned s1 \<Longrightarrow> carries_out ys s1 (f s1)"
  shows "carries_out (xs @ ys) s (andThen r f)"
proof (cases r)
  case (Returned s1)
  with assms(1) have 1: "fail_fast_error xs = None" "calls s1 = calls s @ fail_fast_calls xs"
    by (simp_all add: carries_out_def)
  from assms(2) [OF Returned] 1 show ?thesis
    unfolding Returned carries_out_def fail_fast_calls_append fail_fast_error_append by simp
next
  case (Raised e s1)
  with assms(1) show ?thesis
    unfolding carries_out_def fail_fast_calls_append fail_fast_error_append by auto
qed

lemma carries_out_start:
  "calls s = calls s0 \<Longrightarrow> carries_out steps s r = carries_out steps s0 r"
  by (simp add: carries_out_def)

lemma carries_out_CreateRenderTarget:
  assumes "SUCCEEDED (hrGetDesc1 nv)"
  shows "carries_out (create_steps nv (mSwapChain s) i) s (CreateRenderTarget nv i s)"
  using assms
  by (cases "SUCCEEDED (hrGetBuffer nv i)")
     (simp_all add: CreateRenderTarget_def Let_def carries_out_def create_steps_def call_def)

lemma CreateRenderTarget_mSwapChain:
  "CreateRenderTarget nv i s = Returned s1 \<Longrightarrow> mSwapChain s1 = mSwapChain s"
  by (cases "SUCCEEDED (hrGetBuffer nv i)")
     (auto simp: CreateRenderTarget_def Let_def call_def)

lemma carries_out_CreateRenderTargets_from:
  assumes "SUCCEEDED (hrGetDesc1 nv)" "mSwapChain s = sz"
  shows "carries_out (concat (map (create_steps nv sz) is)) s (CreateRenderTargets_from nv is s)"
  using assms(2)
proof (induction "is" arbitrary: s)
  case Nil
  show ?case by (simp add: carries_out_def)
next
  case (Cons i "is")
  have "carries_out (create_steps nv sz i @ concat (map (create_steps nv sz) is)) s
          (andThen (CreateRenderTarget nv i s) (CreateRenderTargets_from nv is))"
  proof (rule carries_out_andThen)
    show "carries_out (create_steps nv sz i) s (CreateRenderTarget nv i s)"
      using carries_out_CreateRenderTarget [OF assms(1), of s i] Cons.prems by simp
  next
    fix s1 assume "CreateRenderTarget nv i s = Returned s1"
    then have "mSwapChain s1 = sz"
      using CreateRenderTarget_mSwapChain Cons.prems by simp
    then show "carries_out (concat (map (create_steps nv sz) is)) s1 (CreateRenderTargets_from nv is s1)"
      by (rule Cons.IH)
  qed
  then show ?case by simp
qed

lemma unchecked_release:
  "concat (map (\<lambda>i. [Unchecked (ReleaseSurface i), Unchecked (ReleaseRenderTarget i)]) is) =
   map Unchecked (concat (map (\<lambda>i. [ReleaseSurface i, ReleaseRenderTarget i]) is))"
  by (induction "is") simp_all

lemma carries_out_CleanupFrameContexts:
  assumes "all_release_calls (mFrames s) =
     concat (map (\<lambda>i. [ReleaseSurface i, ReleaseRenderTarget i]) [0..<N])"
  shows "carries_out (quiesce_steps nv (mFenceValue s + 1) N) s (CleanupFrameContexts nv s)"
  by (cases "SUCCEEDED (hrSignalCleanup nv)"; cases "SUCCEEDED (hrSetEventCleanup nv)")
     (simp_all add: CleanupFrameContexts_def Let_def carries_out_def quiesce_steps_def call_def
        release_all_def assms [unfolded all_release_calls_def] unchecked_release)

lemma carries_out_RenderFrame_body:
  assumes "mFrameIndex s < length (mFrames s)" "mSkSurface (mFrames s ! mFrameIndex s) \<noteq> None"
  shows "carries_out (frame_steps nv (mFrameIndex s) (frame_mFenceValue (mFrames s ! mFrameIndex s))
           (mFenceValue s) (mWindowSize s) (mFrameCounter s + 1)) s (RenderFrame_body N nv s)"
proof -
  note defs = RenderFrame_body_def wait_for_frame_def RenderNonSkiaContent_def
        RenderSkiaContent_def RenderSkiaContent_canvas_def Let_def carries_out_def
        frame_steps_def call_def add.commute
  consider "\<not> SUCCEEDED (hrAllocatorReset nv)"
    | "SUCCEEDED (hrAllocatorReset nv)" "\<not> SUCCEEDED (hrCommandListReset nv)"
    | "SUCCEEDED (hrAllocatorReset nv)" "SUCCEEDED (hrCommandListReset nv)"
      "\<not> SUCCEEDED (hrClose nv)"
    | "SUCCEEDED (hrAllocatorReset nv)" "SUCCEEDED (hrCommandListReset nv)"
      "SUCCEEDED (hrClose nv)" "\<not> SUCCEEDED (hrSignal nv)"
    | "SUCCEEDED (hrAllocatorReset nv)" "SUCCEEDED (hrCommandListReset nv)"
      "SUCCEEDED (hrClose nv)" "SUCCEEDED (hrSignal nv)" "\<not> SUCCEEDED (hrPresent nv)"
    | "SUCCEEDED (hrAllocatorReset nv)" "SUCCEEDED (hrCommandListReset nv)"
      "SUCCEEDED (hrClose nv)" "SUCCEEDED (hrSignal nv)" "SUCCEEDED (hrPresent nv)"
    by blast
  then show ?thesis
    using assms by cases (auto simp: defs)
qed


lemma carries_out_RenderFrame:
  assumes "wf N s" "list_all (\<lambda>f. mRenderTarget f \<noteq> None) (mFrames s)"
    "SUCCEEDED (hrGetDesc1 nv)"
  shows "carries_out (RenderFrame_steps N nv s) s (RenderFrame N nv s)"
proof (cases "mPendingResize s")
  case None
  have "mFrameIndex s < length (mFrames s)" "mSkSurface (mFrames s ! mFrameIndex s) \<noteq> None"
    using assms(1) by (auto simp: wf_def list_all_length)
  from carries_out_RenderFrame_body [OF this, of nv N] show ?thesis
    using None by (simp add: RenderFrame_steps_def RenderFrame_def RenderFrame_resize_def)
next
  case (Some sz)
  let ?d = "\<lparr>mWidth = (if mWidth sz = 0 then mWidth (clientArea nv) else mWidth sz),
             mHeight = (if mHeight sz = 0 then mHeight (clientArea nv) else mHeight sz)\<rparr>"
  have d: "resized nv sz = ?d" by (simp add: resized_def)
  have N: "0 < N" "length (mFrames s) = N" "list_all (\<lambda>f. mSkSurface f \<noteq> None) (mFrames s)"
    using assms(1) by (simp_all add: wf_def)
  have rel: "all_release_calls (mFrames s) =
     concat (map (\<lambda>i. [ReleaseSurface i, ReleaseRenderTarget i]) [0..<N])"
    by (rule release_calls_held [OF N(2,3) assms(2)])
  have a: "carries_out [Checked (ResizeBuffers (mWidth sz) (mHeight sz)) (hrResizeBuffers nv)] s1
      (CheckHResult (hrResizeBuffers nv) (call (ResizeBuffers (mWidth sz) (mHeight sz)) s1))" for s1
    by (cases "SUCCEEDED (hrResizeBuffers nv)") (simp_all add: carries_out_def)
  have b: "carries_out (concat (map (create_steps nv ?d) [0..<N]) @ []) s2
            (andThen (CreateRenderTargets N nv (s2\<lparr>mSwapChain := resized nv sz\<rparr>))
              (\<lambda>s3. Returned (s3\<lparr>mWindowSize := sz, mPendingResize := None\<rparr>)))" for s2
  proof -
    have "carries_out (concat (map (create_steps nv ?d) [0..<N]) @ []) (s2\<lparr>mSwapChain := resized nv sz\<rparr>)
            (andThen (CreateRenderTargets N nv (s2\<lparr>mSwapChain := resized nv sz\<rparr>))
              (\<lambda>s3. Returned (s3\<lparr>mWindowSize := sz, mPendingResize := None\<rparr>)))"
      unfolding CreateRenderTargets_def
      by (rule carries_out_andThen [OF carries_out_CreateRenderTargets_from [OF assms(3)]])
         (simp_all add: d carries_out_def)
    then show ?thesis
      by (simp add: carries_out_start [of "s2\<lparr>mSwapChain := resized nv sz\<rparr>" s2])
  qed
  have rs: "carries_out (quiesce_steps nv (mFenceValue s + 1) N @
          ([Checked (ResizeBuffers (mWidth sz) (mHeight sz)) (hrResizeBuffers nv)] @
          (concat (map (create_steps nv ?d) [0..<N]) @ []))) s (RenderFrame_resize N nv s)"
    unfolding RenderFrame_resize_def Some option.case
  proof (rule carries_out_andThen [OF carries_out_CleanupFrameContexts [OF rel]])
    fix s1
    show "carries_out ([Checked (ResizeBuffers (mWidth sz) (mHeight sz)) (hrResizeBuffers nv)] @
          (concat (map (create_steps nv ?d) [0..<N]) @ [])) s1
        (andThen (CheckHResult (hrResizeBuffers nv)
                     (call (ResizeBuffers (mWidth sz) (mHeight sz)) s1)) (\<lambda>s2.
          andThen (CreateRenderTargets N nv (s2\<lparr>mSwapChain := resized nv sz\<rparr>)) (\<lambda>s3.
            Returned (s3\<lparr>mWindowSize := sz, mPendingResize := None\<rparr>))))"
      by (rule carries_out_andThen [OF a]) (rule b)
  qed
  have body: "carries_out (frame_steps nv 0 0 (mFenceValue s + 1) sz (mFrameCounter s + 1)) s1
      (RenderFrame_body N nv s1)" if r: "RenderFrame_resize N nv s = Returned s1" for s1
  proof -
    note s1 = RenderFrame_resize_any [OF Some r]
    have f: "mFrameIndex s1 = 0" "length (mFrames s1) = N" "mFenceValue s1 = mFenceValue s + 1"
      "mWindowSize s1 = sz" "mFrameCounter s1 = mFrameCounter s"
      by (subst s1, use N in simp)+
    have g: "mSkSurface (mFrames s1 ! 0) \<noteq> None" "frame_mFenceValue (mFrames s1 ! 0) = 0"
      by (subst s1, use N in \<open>simp add: wf_created_surface release_frame_def\<close>)+
    from carries_out_RenderFrame_body [of s1 nv N] show ?thesis
      using f g N(1) by simp
  qed
  have "carries_out ((quiesce_steps nv (mFenceValue s + 1) N @
          ([Checked (ResizeBuffers (mWidth sz) (mHeight sz)) (hrResizeBuffers nv)] @
          (concat (map (create_steps nv ?d) [0..<N]) @ []))) @
          frame_steps nv 0 0 (mFenceValue s + 1) sz (mFrameCounter s + 1)) s (RenderFrame N nv s)"
    unfolding RenderFrame_def by (rule carries_out_andThen [OF rs]) (rule body)
  then show ?thesis
    by (simp add: RenderFrame_steps_def Some)
qed

lemma Run_raised:
  assumes "mExitCode s = None" "snd (pump ms s) = False"
    and "RenderFrame N nv (fst (pump ms s)) = Raised e s2"
  shows "Run N ((ms, nv) # rest) s = Terminated e s2"
  using assms by (subst Run.simps) (simp add: case_prod_beta)

lemma CreateRenderTargets_from_SetName:
  "CreateRenderTargets_from (nv\<lparr>hrSetName := hr\<rparr>) is s = CreateRenderTargets_from nv is s"
proof (induction "is" arbitrary: s)
  case Nil
  show ?case by simp
next
  case (Cons i "is")
  have "CreateRenderTarget (nv\<lparr>hrSetName := hr\<rparr>) i s = CreateRenderTarget nv i s"
    by (simp add: CreateRenderTarget_def Let_def cong: if_cong)
  moreover have "CreateRenderTargets_from (nv\<lparr>hrSetName := hr\<rparr>) is =
      CreateRenderTargets_from nv is"
    using Cons.IH by (simp add: fun_eq_iff)
  ultimately show ?case by simp
qed

lemma CreateRenderTargets_SetName:
  "CreateRenderTargets N (nv\<lparr>hrSetName := hr\<rparr>) = CreateRenderTargets N nv"
  by (simp add: fun_eq_iff CreateRenderTargets_def CreateRenderTargets_from_SetName)

lemma RenderFrame_SetName: "RenderFrame N (nv\<lparr>hrSetName := hr\<rparr>) s = RenderFrame N nv s"
proof -
  have c: "CleanupFrameContexts (nv\<lparr>hrSetName := hr\<rparr>) s = CleanupFrameContexts nv s"
    by (simp add: CleanupFrameContexts_def)
  have r: "resized (nv\<lparr>hrSetName := hr\<rparr>) = resized nv"
    by (simp add: fun_eq_iff resized_def)
  have "RenderFrame_resize N (nv\<lparr>hrSetName := hr\<rparr>) s = RenderFrame_resize N nv s"
    by (cases "mPendingResize s")
       (simp_all add: RenderFrame_resize_def c r CreateRenderTargets_SetName)
  moreover have n: "RenderNonSkiaContent (nv\<lparr>hrSetName := hr\<rparr>) = RenderNonSkiaContent nv"
    by (simp add: fun_eq_iff RenderNonSkiaContent_def Let_def)
  have "RenderFrame_body N (nv\<lparr>hrSetName := hr\<rparr>) = RenderFrame_body N nv"
    by (simp add: fun_eq_iff RenderFrame_body_def Let_def n cong: if_cong)
  ultimately show ?thesis by (simp add: RenderFrame_def)
qed


lemma thrown_Raised: "thrown r = Some e \<Longrightarrow> r = Raised e (final r)"
  by (cases r) simp_all

text \<open>
  C8, as amended. In a window whose slots all hold their surface and render target,
  and where \<open>GetDesc1\<close> succeeds, \<open>RenderFrame\<close> is the fail-fast run of its native
  calls with the checks the source has: it makes the calls in program order up to
  the first call passed to \<open>CheckHResult\<close> whose result is a failure, writes the
  diagnostic for that result directly after that call, calls nothing further and
  throws \<open>std::system_error\<close> with that result; no call is retried; it returns
  exactly when no checked call fails. The same holds of the destructor and of the
  constructor. An exception from \<open>RenderFrame\<close> ends \<open>Run\<close> there, whatever the rest
  of the script has. What \<open>SetName\<close> answers makes no difference to a frame or to
  the constructor.
\<close>

theorem checked_calls_fail_fast:
  assumes "wf N s" "list_all (\<lambda>f. mRenderTarget f \<noteq> None) (mFrames s)"
    "SUCCEEDED (hrGetDesc1 nv)"
  shows "carries_out (RenderFrame_steps N nv s) s (RenderFrame N nv s) \<and>
         carries_out (quiesce_steps nv (mFenceValue s + 1) N) s (HelloSkiaWindow_dtor nv s) \<and>
         carries_out (concat (map (create_steps nv sz) [0..<N])) (initial N sz)
           (HelloSkiaWindow_ctor N nv sz) \<and>
         (mExitCode s0 = None \<and> \<not> snd (pump ms s0) \<and>
          RenderFrame N nv1 (fst (pump ms s0)) = Raised e s2 \<longrightarrow>
            Run N ((ms, nv1) # rest) s0 = Terminated e s2) \<and>
         RenderFrame N (nv\<lparr>hrSetName := hr\<rparr>) s = RenderFrame N nv s \<and>
         HelloSkiaWindow_ctor N (nv\<lparr>hrSetName := hr\<rparr>) sz = HelloSkiaWindow_ctor N nv sz"
proof (intro conjI impI)
  show "carries_out (RenderFrame_steps N nv s) s (RenderFrame N nv s)"
    by (rule carries_out_RenderFrame [OF assms])
next
  have N: "length (mFrames s) = N" "list_all (\<lambda>f. mSkSurface f \<noteq> None) (mFrames s)"
    using assms(1) by (simp_all add: wf_def)
  show "carries_out (quiesce_steps nv (mFenceValue s + 1) N) s (HelloSkiaWindow_dtor nv s)"
    unfolding HelloSkiaWindow_dtor_def
    by (rule carries_out_CleanupFrameContexts [OF release_calls_held [OF N assms(2)]])
next
  show "carries_out (concat (map (create_steps nv sz) [0..<N])) (initial N sz)
           (HelloSkiaWindow_ctor N nv sz)"
    unfolding HelloSkiaWindow_ctor_def CreateRenderTargets_def
    by (rule carries_out_CreateRenderTargets_from [OF assms(3)]) (simp add: initial_def)
next
  assume "mExitCode s0 = None \<and> \<not> snd (pump ms s0) \<and>
          RenderFrame N nv1 (fst (pump ms s0)) = Raised e s2"
  then show "Run N ((ms, nv1) # rest) s0 = Terminated e s2"
    by (intro Run_raised) simp_all
next
  show "RenderFrame N (nv\<lparr>hrSetName := hr\<rparr>) s = RenderFrame N nv s"
    by (rule RenderFrame_SetName)
next
  show "HelloSkiaWindow_ctor N (nv\<lparr>hrSetName := hr\<rparr>) sz = HelloSkiaWindow_ctor N nv sz"
    by (simp add: HelloSkiaWindow_ctor_def CreateRenderTargets_SetName)
qed

theorem checked_calls_fail_fast_witness:
  "wf 2 sample_reused \<and> list_all (\<lambda>f. mRenderTarget f \<noteq> None) (mFrames sample_reused) \<and>
   SUCCEEDED (hrGetDesc1 (ok_natives\<lparr>hrClose := E_OUTOFMEMORY\<rparr>)) \<and>
   RenderFrame 2 (ok_natives\<lparr>hrClose := E_OUTOFMEMORY\<rparr>) sample_reused =
     Raised (system_error E_OUTOFMEMORY)
       (final (RenderFrame 2 (ok_natives\<lparr>hrClose := E_OUTOFMEMORY\<rparr>) sample_reused)) \<and>
   calls (final (RenderFrame 2 (ok_natives\<lparr>hrClose := E_OUTOFMEMORY\<rparr>) sample_reused)) =
     calls sample_reused @
     [SetEventOnCompletion 2, WaitForSingleObject, AllocatorReset 0, CommandListReset 0,
      ResourceBarrier 0, ClearRenderTargetView 0, OMSetRenderTargets 0, SetDescriptorHeaps,
      Close, OutputDebugStringA E_OUTOFMEMORY] \<and>
   mExitCode sample_reused = None \<and> \<not> snd (pump [] sample_reused) \<and>
   Run 2 [([], ok_natives\<lparr>hrClose := E_OUTOFMEMORY\<rparr>), ([], ok_natives)] sample_reused =
     Terminated (system_error E_OUTOFMEMORY)
       (final (RenderFrame 2 (ok_natives\<lparr>hrClose := E_OUTOFMEMORY\<rparr>) sample_reused))"
proof -
  let ?nv = "ok_natives\<lparr>hrClose := E_OUTOFMEMORY\<rparr>"
  let ?r = "RenderFrame 2 ?nv sample_reused"
  have h: "wf 2 sample_reused" "list_all (\<lambda>f. mRenderTarget f \<noteq> None) (mFrames sample_reused)"
    "SUCCEEDED (hrGetDesc1 ?nv)"
    by (simp_all add: wf_sample_reused ok_natives_def) (simp add: sample_reused_def)
  note t = checked_calls_fail_fast [OF h, of sample_size sample_reused "[]" ?nv
      "system_error E_OUTOFMEMORY" "final ?r" "[([], ok_natives)]" S_OK]
  have steps: "RenderFrame_steps 2 ?nv sample_reused = frame_steps ?nv 0 2 4 sample_size 3"
    by (simp add: RenderFrame_steps_def sample_reused_def)
  have ff: "fail_fast_calls (frame_steps ?nv 0 2 4 sample_size 3) =
     [SetEventOnCompletion 2, WaitForSingleObject, AllocatorReset 0, CommandListReset 0,
      ResourceBarrier 0, ClearRenderTargetView 0, OMSetRenderTargets 0, SetDescriptorHeaps,
      Close, OutputDebugStringA E_OUTOFMEMORY]"
    "fail_fast_error (frame_steps ?nv 0 2 4 sample_size 3) = Some (system_error E_OUTOFMEMORY)"
    by (simp_all add: frame_steps_def ok_natives_def)
  from t have "carries_out (RenderFrame_steps 2 ?nv sample_reused) sample_reused ?r"
    by blast
  then have c: "calls (final ?r) = calls sample_reused @
     [SetEventOnCompletion 2, WaitForSingleObject, AllocatorReset 0, CommandListReset 0,
      ResourceBarrier 0, ClearRenderTargetView 0, OMSetRenderTargets 0, SetDescriptorHeaps,
      Close, OutputDebugStringA E_OUTOFMEMORY]"
    and "thrown ?r = Some (system_error E_OUTOFMEMORY)"
    unfolding carries_out_def steps ff by simp_all
  then have r: "?r = Raised (system_error E_OUTOFMEMORY) (final ?r)"
    by (intro thrown_Raised)
  have e: "mExitCode sample_reused = None" "\<not> snd (pump [] sample_reused)"
    by (simp_all add: sample_reused_def)
  have "RenderFrame 2 ?nv (fst (pump [] sample_reused)) =
      Raised (system_error E_OUTOFMEMORY) (final ?r)"
    using r by simp
  with t e have "Run 2 [([], ?nv), ([], ok_natives)] sample_reused =
     Terminated (system_error E_OUTOFMEMORY) (final ?r)"
    by blast
  with h r c e show ?thesis by blast
qed

text \<open>
  C8, as stated, fails on calls whose result the program does not look at. The
  constructor calls \<open>SetName\<close> on each render target and ends with the same window
  and the same log, free of any diagnostic, whether \<open>SetName\<close> succeeds or answers
  \<open>E_OUTOFMEMORY\<close>. On the third frame of the sample window slot 0 has the stored
  marker 2; when \<open>SetEventOnCompletion\<close> answers \<open>E_OUTOFMEMORY\<close> there,
  \<open>RenderFrame\<close> writes no diagnostic, throws nothing and draws the frame.
\<close>

theorem unchecked_calls_counterexample:
  "\<not> SUCCEEDED E_OUTOFMEMORY \<and>
   HelloSkiaWindow_ctor 2 (ok_natives\<lparr>hrSetName := E_OUTOFMEMORY\<rparr>) sample_size =
     Returned sample_window \<and>
   calls sample_window = create_calls ok_natives sample_size 0 @ create_calls ok_natives sample_size 1 \<and>
   create_calls ok_natives sample_size 0 =
     [GetBuffer 0, SetName 0, CreateRenderTargetView 0 4096, GetDesc1,
      WrapBackendRenderTarget 0 sample_size] \<and>
   RenderFrame 2 (ok_natives\<lparr>hrSetEventOnCompletion := E_OUTOFMEMORY\<rparr>) sample_reused =
     Returned (sample_reused\<lparr>mFrameCounter := 3, mFrameIndex := 1, mFenceValue := 6,
        mFrames := [\<lparr>mRenderTarget = Some 0, mRenderTargetView = 4096,
                   mSkSurface = Some sample_size, frame_mFenceValue = 6\<rparr>,
                 \<lparr>mRenderTarget = Some 1, mRenderTargetView = 4128,
                   mSkSurface = Some sample_size, frame_mFenceValue = 4\<rparr>],
        calls := calls sample_reused @ [SetEventOnCompletion 2, WaitForSingleObject] @
                   frame_calls 0 5 6 sample_size 3\<rparr>)"
proof (intro conjI)
  let ?nv = "ok_natives\<lparr>hrSetEventOnCompletion := E_OUTOFMEMORY\<rparr>"
  have p: "mPendingResize sample_reused = None" by (simp add: sample_reused_def)
  have ok: "all_ok 2 ?nv" by (simp add: all_ok_def ok_natives_def list_all_iff)
  show "RenderFrame 2 ?nv sample_reused =
     Returned (sample_reused\<lparr>mFrameCounter := 3, mFrameIndex := 1, mFenceValue := 6,
        mFrames := [\<lparr>mRenderTarget = Some 0, mRenderTargetView = 4096,
                   mSkSurface = Some sample_size, frame_mFenceValue = 6\<rparr>,
                 \<lparr>mRenderTarget = Some 1, mRenderTargetView = 4128,
                   mSkSurface = Some sample_size, frame_mFenceValue = 4\<rparr>],
        calls := calls sample_reused @ [SetEventOnCompletion 2, WaitForSingleObject] @
                   frame_calls 0 5 6 sample_size 3\<rparr>)"
    unfolding RenderFrame_ok_no_resize [OF wf_sample_reused p ok]
    by (simp add: sample_reused_def wait_calls_def numeral_3_eq_3)
next
  show "\<not> SUCCEEDED E_OUTOFMEMORY" by simp
next
  let ?nv = "ok_natives\<lparr>hrSetName := E_OUTOFMEMORY\<rparr>"
  have u: "[0..<2] = [0, 1]" by (simp add: upt_rec)
  have "CreateRenderTargets_from ?nv [0, 1] (initial 2 sample_size) =
     Returned ((initial 2 sample_size)
       \<lparr>mFrames := created ?nv (mSwapChain (initial 2 sample_size)) [0, 1]
                     (mFrames (initial 2 sample_size)),
        calls := calls (initial 2 sample_size) @
           concat (map (create_calls ?nv (mSwapChain (initial 2 sample_size))) [0, 1])\<rparr>)"
    by (rule CreateRenderTargets_from_ok) (simp_all add: ok_natives_def)
  moreover have "rtvStart ?nv = 4096" "rtvStep ?nv = 32" "rtvStart ok_natives = 4096"
    "rtvStep ok_natives = 32"
    by (simp_all add: ok_natives_def)
  moreover have "replicate 2 x = [x, x]" for x :: FrameContext
    by (simp add: numeral_2_eq_2)
  ultimately show "HelloSkiaWindow_ctor 2 ?nv sample_size = Returned sample_window"
    unfolding HelloSkiaWindow_ctor_def CreateRenderTargets_def u
    by (simp add: initial_def sample_window_def created_frame_def create_calls_def)
next
  show "calls sample_window =
      create_calls ok_natives sample_size 0 @ create_calls ok_natives sample_size 1"
    by (simp add: sample_window_def)
next
  show "create_calls ok_natives sample_size 0 =
     [GetBuffer 0, SetName 0, CreateRenderTargetView 0 4096, GetDesc1,
      WrapBackendRenderTarget 0 sample_size]"
    by (simp add: create_calls_def ok_natives_def)
qed

end
